theory Spec2Isabelle
  imports Main "HOL-Library.AList"
begin

section \<open>Data model of the useWebRTC hook\<close>

text \<open>
  The model follows \<^verbatim>\<open>src/features/video-call/hooks/useWebRTC.ts\<close> between the run of
  its effect with a non-null \<^verbatim>\<open>localStream\<close> and the effect's cleanup. React state
  (\<^verbatim>\<open>useState\<close>) and refs (\<^verbatim>\<open>useRef\<close>) are fields of one record that every handler
  takes and returns. A JavaScript \<^verbatim>\<open>Map\<close> is an association list in insertion order
  (\<open>AList.update\<close> keeps the place of a key that is present and appends a new one, as
  \<^verbatim>\<open>Map.set\<close> does). RTCPeerConnection objects live in a store, \<open>connections\<close>, and
  the map \<open>peers\<close> holds their addresses, so that closing an object and dropping it
  from the map are two effects, as in the source.
\<close>

datatype track_kind = Audio | Video

record media_track =
  track_id :: nat
  kind :: track_kind

record media_stream =
  stream_id :: nat
  getTracks :: "media_track list"

text \<open>The value of \<^verbatim>\<open>Participant.stream\<close>: \<^verbatim>\<open>null\<close>, a stream, or \<^verbatim>\<open>undefined\<close>
  (what \<^verbatim>\<open>event.streams[0]\<close> is when a track arrives with no stream).\<close>

datatype stream_ref = Null | Undefined | Stream media_stream

record participant =
  id_p :: string
  name :: string
  stream :: stream_ref
  isMicOn :: "bool option"
  isCameraOn :: "bool option"

text \<open>The payload \<^verbatim>\<open>{ userId, userName }\<close> of join-request, user-joined, user-left and
  of the entries of existing-users.\<close>

record user_info =
  userId :: string
  userName :: string

type_synonym sdp = nat
type_synonym ice_candidate = nat

record rtp_sender =
  track :: "media_track option"

record rtc_peer_connection =
  owner :: string
  getSenders :: "rtp_sender list"
  localDescription :: "sdp option"
  remoteDescription :: "sdp option"
  remoteCandidates :: "ice_candidate list"
  pc_closed :: bool

datatype connection_status = Connecting | Waiting | Joined | Rejected

text \<open>Messages passed to \<^verbatim>\<open>socket.emit\<close>.\<close>

datatype out_msg =
    JoinRoomOut string string
  | OfferOut string string sdp string
  | AnswerOut string string sdp
  | IceCandidateOut string string ice_candidate
  | AdmitUserOut string string
  | RejectUserOut string string
  | ToggleMediaOut string track_kind bool
  | ScreenShareStatusOut string bool

text \<open>Events the socket delivers to the handlers registered with \<^verbatim>\<open>socket.on\<close>.\<close>

datatype in_event =
    WaitingForApproval
  | JoinApproved
  | JoinRejected
  | JoinRequest user_info
  | UserJoined user_info
  | MediaStatusUpdate string track_kind bool
  | Offer string sdp string
  | Answer string sdp
  | IceCandidateIn string ice_candidate
  | UserLeft user_info
  | ExistingUsers "user_info list"

text \<open>
  The outcome of the browser's WebRTC calls is not decided by the hook: it is a parameter.
  \<open>None\<close> and \<open>False\<close> stand for a rejected promise.
\<close>

record rtc_engine =
  createOffer :: "rtc_peer_connection \<Rightarrow> sdp option"
  createAnswer :: "rtc_peer_connection \<Rightarrow> sdp option"
  setLocalDescription :: "rtc_peer_connection \<Rightarrow> sdp \<Rightarrow> bool"
  setRemoteDescription :: "rtc_peer_connection \<Rightarrow> sdp \<Rightarrow> bool"
  addIceCandidate :: "rtc_peer_connection \<Rightarrow> ice_candidate \<Rightarrow> bool"
  senderReplaceTrack :: "rtp_sender \<Rightarrow> media_track \<Rightarrow> bool"

text \<open>
  \<open>timeouts\<close> is the runtime's table of pending \<^verbatim>\<open>setTimeout\<close> calls in creation order:
  handle, deadline in milliseconds, and the \<^verbatim>\<open>userId\<close> the callback closes over.
  \<open>emitted\<close> is the trace of \<^verbatim>\<open>socket.emit\<close> calls, each with the clock reading \<open>now\<close>
  at the call.
\<close>

record hook_state =
  roomId :: string
  localStream :: media_stream
  participants :: "participant list"
  connections :: "rtc_peer_connection list"
  peers :: "(string \<times> nat) list"
  pendingRequests :: "user_info list"
  connectionStatus :: connection_status
  iceCandidateQueue :: "(string \<times> ice_candidate list) list"
  iceCandidateTimers :: "(string \<times> nat) list"
  socket_connected :: bool
  emitted :: "(nat \<times> out_msg) list"
  notifications :: nat
  now :: nat
  timeouts :: "(nat \<times> nat \<times> string) list"
  timerSeq :: nat

section \<open>The socket, the timers and the notification sound\<close>

definition emit :: "out_msg \<Rightarrow> hook_state \<Rightarrow> hook_state" where
  "emit m s = s\<lparr>emitted := emitted s @ [(now s, m)]\<rparr>"

definition playNotificationSound :: "hook_state \<Rightarrow> hook_state" where
  "playNotificationSound s = s\<lparr>notifications := Suc (notifications s)\<rparr>"

text \<open>Handles are positive, so a stored handle is truthy in \<^verbatim>\<open>if (existingTimer)\<close>.\<close>

definition setTimeout :: "string \<Rightarrow> nat \<Rightarrow> hook_state \<Rightarrow> nat \<times> hook_state" where
  "setTimeout uid delay s =
     (let h = Suc (timerSeq s)
      in (h, s\<lparr>timerSeq := h, timeouts := timeouts s @ [(h, now s + delay, uid)]\<rparr>))"

definition clearTimeout :: "nat \<Rightarrow> hook_state \<Rightarrow> hook_state" where
  "clearTimeout h s = s\<lparr>timeouts := filter (\<lambda>x. fst x \<noteq> h) (timeouts s)\<rparr>"

section \<open>createPeerConnection and the callbacks it installs\<close>

definition addTracks :: "media_stream \<Rightarrow> rtp_sender list" where
  "addTracks strm = map (\<lambda>t. \<lparr>track = Some t\<rparr>) (getTracks strm)"

definition update_pc ::
  "nat \<Rightarrow> (rtc_peer_connection \<Rightarrow> rtc_peer_connection) \<Rightarrow> hook_state \<Rightarrow> hook_state" where
  "update_pc a f s = s\<lparr>connections := (connections s)[a := f (connections s ! a)]\<rparr>"

text \<open>Lines 75-84 and 136-149. The awaited \<^verbatim>\<open>createOffer\<close> and \<^verbatim>\<open>setLocalDescription\<close>
  are taken to settle before the next event is dispatched; a rejection of either is caught.\<close>

definition createPeerConnection ::
  "rtc_engine \<Rightarrow> string \<Rightarrow> string \<Rightarrow> bool \<Rightarrow> media_stream \<Rightarrow> hook_state \<Rightarrow> hook_state" where
  "createPeerConnection eng uid uname isInitiator strm s =
     (if map_of (peers s) uid \<noteq> None then s
      else
        let a = length (connections s);
            pc = \<lparr>owner = uid, getSenders = addTracks strm, localDescription = None,
                  remoteDescription = None, remoteCandidates = [], pc_closed = False\<rparr>;
            s1 = s\<lparr>connections := connections s @ [pc], peers := AList.update uid a (peers s)\<rparr>
        in if isInitiator then
             (case createOffer eng pc of
                None \<Rightarrow> s1
              | Some offer \<Rightarrow>
                  if setLocalDescription eng pc offer
                  then emit (OfferOut (roomId s1) uid offer uname)
                         (update_pc a (\<lambda>c. c\<lparr>localDescription := Some offer\<rparr>) s1)
                  else s1)
           else s1)"

text \<open>\<^verbatim>\<open>pc.ontrack\<close>, lines 87-94.\<close>

definition first_stream :: "media_stream list \<Rightarrow> stream_ref" where
  "first_stream streams = (case streams of [] \<Rightarrow> Undefined | m # _ \<Rightarrow> Stream m)"

definition ontrack :: "string \<Rightarrow> media_stream list \<Rightarrow> hook_state \<Rightarrow> hook_state" where
  "ontrack uid streams s =
     s\<lparr>participants :=
         map (\<lambda>p. if id_p p = uid then p\<lparr>stream := first_stream streams\<rparr> else p)
           (participants s)\<rparr>"

text \<open>The callback given to \<^verbatim>\<open>setTimeout\<close>, lines 108-122.\<close>

definition queued :: "string \<Rightarrow> hook_state \<Rightarrow> ice_candidate list" where
  "queued uid s = (case map_of (iceCandidateQueue s) uid of None \<Rightarrow> [] | Some q \<Rightarrow> q)"

definition onIceTimer :: "string \<Rightarrow> hook_state \<Rightarrow> hook_state" where
  "onIceTimer uid s =
     (let candidates = queued uid s;
          s1 = (if length candidates > 0
                then (fold (\<lambda>c. emit (IceCandidateOut (roomId s) uid c)) candidates s)
                       \<lparr>iceCandidateQueue := AList.delete uid (iceCandidateQueue s)\<rparr>
                else s)
      in s1\<lparr>iceCandidateTimers := AList.delete uid (iceCandidateTimers s1)\<rparr>)"

text \<open>\<^verbatim>\<open>pc.onicecandidate\<close>, lines 97-126.\<close>

definition onicecandidate :: "string \<Rightarrow> ice_candidate option \<Rightarrow> hook_state \<Rightarrow> hook_state" where
  "onicecandidate uid cand s =
     (case cand of
        None \<Rightarrow> s
      | Some c \<Rightarrow>
          let queue = queued uid s @ [c];
              s1 = s\<lparr>iceCandidateQueue := AList.update uid queue (iceCandidateQueue s)\<rparr>;
              s2 = (case map_of (iceCandidateTimers s1) uid of
                      None \<Rightarrow> s1
                    | Some existingTimer \<Rightarrow> clearTimeout existingTimer s1);
              (timer, s3) = setTimeout uid 50 s2
          in s3\<lparr>iceCandidateTimers := AList.update uid timer (iceCandidateTimers s3)\<rparr>)"

section \<open>Operations the hook returns\<close>

text \<open>\<^verbatim>\<open>replaceTrack\<close>, lines 152-159: \<^verbatim>\<open>find\<close> takes the first sender whose track has the
  kind of the new track; a sender without a track never matches (\<^verbatim>\<open>s.track?.kind\<close>).\<close>

definition sender_matches :: "media_track \<Rightarrow> rtp_sender \<Rightarrow> bool" where
  "sender_matches newTrack sn =
     (case track sn of None \<Rightarrow> False | Some t \<Rightarrow> kind t = kind newTrack)"

fun replace_first :: "rtc_engine \<Rightarrow> media_track \<Rightarrow> rtp_sender list \<Rightarrow> rtp_sender list" where
  "replace_first eng newTrack [] = []"
| "replace_first eng newTrack (sn # sns) =
     (if sender_matches newTrack sn
      then (if senderReplaceTrack eng sn newTrack then sn\<lparr>track := Some newTrack\<rparr> else sn) # sns
      else sn # replace_first eng newTrack sns)"

definition replaceTrack :: "rtc_engine \<Rightarrow> media_track \<Rightarrow> hook_state \<Rightarrow> hook_state" where
  "replaceTrack eng newTrack s =
     fold (\<lambda>(uid, a). update_pc a
             (\<lambda>pc. pc\<lparr>getSenders := replace_first eng newTrack (getSenders pc)\<rparr>))
       (peers s) s"

definition admitUser :: "string \<Rightarrow> hook_state \<Rightarrow> hook_state" where
  "admitUser uid s =
     (let s1 = emit (AdmitUserOut uid (roomId s)) s
      in s1\<lparr>pendingRequests := filter (\<lambda>req. userId req \<noteq> uid) (pendingRequests s1)\<rparr>)"

definition rejectUser :: "string \<Rightarrow> hook_state \<Rightarrow> hook_state" where
  "rejectUser uid s =
     (let s1 = emit (RejectUserOut uid (roomId s)) s
      in s1\<lparr>pendingRequests := filter (\<lambda>req. userId req \<noteq> uid) (pendingRequests s1)\<rparr>)"

definition toggleMediaStatus :: "track_kind \<Rightarrow> bool \<Rightarrow> hook_state \<Rightarrow> hook_state" where
  "toggleMediaStatus k isOn s = emit (ToggleMediaOut (roomId s) k isOn) s"

definition emitScreenShareStatus :: "bool \<Rightarrow> hook_state \<Rightarrow> hook_state" where
  "emitScreenShareStatus isSharing s = emit (ScreenShareStatusOut (roomId s) isSharing) s"

section \<open>The effect: initial state and handlers of inbound events\<close>

text \<open>The values of \<^verbatim>\<open>useState\<close> and \<^verbatim>\<open>useRef\<close> at the first render, then lines 184-185:
  \<^verbatim>\<open>connect()\<close> and the emission of join-room.\<close>

definition mount :: "string \<Rightarrow> string \<Rightarrow> media_stream \<Rightarrow> hook_state" where
  "mount room uname strm =
     emit (JoinRoomOut room uname)
       \<lparr>roomId = room, localStream = strm, participants = [], connections = [], peers = [],
        pendingRequests = [], connectionStatus = Connecting, iceCandidateQueue = [],
        iceCandidateTimers = [], socket_connected = True, emitted = [], notifications = 0,
        now = 0, timeouts = [], timerSeq = 0\<rparr>"

definition new_participant :: "string \<Rightarrow> string \<Rightarrow> participant" where
  "new_participant uid uname =
     \<lparr>id_p = uid, name = uname, stream = Null, isMicOn = Some True, isCameraOn = Some True\<rparr>"

definition add_participant :: "string \<Rightarrow> string \<Rightarrow> hook_state \<Rightarrow> hook_state" where
  "add_participant uid uname s =
     s\<lparr>participants :=
         (if list_ex (\<lambda>p. id_p p = uid) (participants s) then participants s
          else participants s @ [new_participant uid uname])\<rparr>"

definition on_waiting_for_approval :: "hook_state \<Rightarrow> hook_state" where
  "on_waiting_for_approval s = s\<lparr>connectionStatus := Waiting\<rparr>"

definition on_join_approved :: "hook_state \<Rightarrow> hook_state" where
  "on_join_approved s = playNotificationSound (s\<lparr>connectionStatus := Joined\<rparr>)"

definition on_join_rejected :: "hook_state \<Rightarrow> hook_state" where
  "on_join_rejected s = (s\<lparr>connectionStatus := Rejected\<rparr>)\<lparr>socket_connected := False\<rparr>"

definition on_join_request :: "user_info \<Rightarrow> hook_state \<Rightarrow> hook_state" where
  "on_join_request data s =
     playNotificationSound (s\<lparr>pendingRequests := pendingRequests s @ [data]\<rparr>)"

definition on_user_joined :: "rtc_engine \<Rightarrow> user_info \<Rightarrow> hook_state \<Rightarrow> hook_state" where
  "on_user_joined eng data s =
     (let s1 = playNotificationSound s;
          s2 = add_participant (userId data) (userName data) s1
      in createPeerConnection eng (userId data) (userName data) True (localStream s2) s2)"

definition on_media_status_update ::
  "string \<Rightarrow> track_kind \<Rightarrow> bool \<Rightarrow> hook_state \<Rightarrow> hook_state" where
  "on_media_status_update uid k isOn s =
     s\<lparr>participants :=
         map (\<lambda>p. if id_p p = uid
                  then (if k = Audio then p\<lparr>isMicOn := Some isOn\<rparr>
                        else p\<lparr>isCameraOn := Some isOn\<rparr>)
                  else p)
           (participants s)\<rparr>"

text \<open>Lines 229-253. Nothing catches a rejected promise here: the handler stops there.\<close>

definition on_offer :: "rtc_engine \<Rightarrow> string \<Rightarrow> sdp \<Rightarrow> string \<Rightarrow> hook_state \<Rightarrow> hook_state" where
  "on_offer eng from offer uname s =
     (let s1 = add_participant from uname s;
          s2 = (if map_of (peers s1) from = None
                then createPeerConnection eng from uname False (localStream s1) s1
                else s1)
      in case map_of (peers s2) from of
           None \<Rightarrow> s2
         | Some a \<Rightarrow>
             if \<not> setRemoteDescription eng (connections s2 ! a) offer then s2
             else
               let s3 = update_pc a (\<lambda>c. c\<lparr>remoteDescription := Some offer\<rparr>) s2
               in case createAnswer eng (connections s3 ! a) of
                    None \<Rightarrow> s3
                  | Some answer \<Rightarrow>
                      if \<not> setLocalDescription eng (connections s3 ! a) answer then s3
                      else emit (AnswerOut (roomId s3) from answer)
                             (update_pc a (\<lambda>c. c\<lparr>localDescription := Some answer\<rparr>) s3))"

definition on_answer :: "rtc_engine \<Rightarrow> string \<Rightarrow> sdp \<Rightarrow> hook_state \<Rightarrow> hook_state" where
  "on_answer eng from answer s =
     (case map_of (peers s) from of
        None \<Rightarrow> s
      | Some a \<Rightarrow>
          if setRemoteDescription eng (connections s ! a) answer
          then update_pc a (\<lambda>c. c\<lparr>remoteDescription := Some answer\<rparr>) s
          else s)"

definition on_ice_candidate ::
  "rtc_engine \<Rightarrow> string \<Rightarrow> ice_candidate \<Rightarrow> hook_state \<Rightarrow> hook_state" where
  "on_ice_candidate eng from cand s =
     (case map_of (peers s) from of
        None \<Rightarrow> s
      | Some a \<Rightarrow>
          if addIceCandidate eng (connections s ! a) cand
          then update_pc a (\<lambda>c. c\<lparr>remoteCandidates := remoteCandidates c @ [cand]\<rparr>) s
          else s)"

definition on_user_left :: "user_info \<Rightarrow> hook_state \<Rightarrow> hook_state" where
  "on_user_left data s =
     (let s1 = (case map_of (peers s) (userId data) of
                  None \<Rightarrow> s
                | Some a \<Rightarrow>
                    (update_pc a (\<lambda>c. c\<lparr>pc_closed := True\<rparr>) s)
                      \<lparr>peers := AList.delete (userId data) (peers s)\<rparr>)
      in s1\<lparr>participants := filter (\<lambda>p. id_p p \<noteq> userId data) (participants s1)\<rparr>)"

text \<open>\<^verbatim>\<open>Array.prototype.findIndex\<close>: the index of the first match, or -1.\<close>

fun findIndex :: "('a \<Rightarrow> bool) \<Rightarrow> 'a list \<Rightarrow> int" where
  "findIndex P [] = -1"
| "findIndex P (x # xs) =
     (if P x then 0 else (let i = findIndex P xs in if i < 0 then -1 else i + 1))"

definition uniqueUsers :: "user_info list \<Rightarrow> user_info list" where
  "uniqueUsers users =
     map snd (filter (\<lambda>(index, user). int index = findIndex (\<lambda>u. userId u = userId user) users)
                (enumerate 0 users))"

definition on_existing_users :: "user_info list \<Rightarrow> hook_state \<Rightarrow> hook_state" where
  "on_existing_users users s =
     (s\<lparr>participants := map (\<lambda>u. new_participant (userId u) (userName u)) (uniqueUsers users)\<rparr>)
       \<lparr>connectionStatus := Joined\<rparr>"

text \<open>
  Dispatch of an inbound event. A socket.io socket calls its listeners only while it is
  connected: after \<^verbatim>\<open>currentSocket.disconnect()\<close> (line 199) nothing is delivered.
\<close>

definition deliver :: "rtc_engine \<Rightarrow> hook_state \<Rightarrow> in_event \<Rightarrow> hook_state" where
  "deliver eng s e =
     (if \<not> socket_connected s then s
      else case e of
          WaitingForApproval \<Rightarrow> on_waiting_for_approval s
        | JoinApproved \<Rightarrow> on_join_approved s
        | JoinRejected \<Rightarrow> on_join_rejected s
        | JoinRequest data \<Rightarrow> on_join_request data s
        | UserJoined data \<Rightarrow> on_user_joined eng data s
        | MediaStatusUpdate uid k isOn \<Rightarrow> on_media_status_update uid k isOn s
        | Offer from offer uname \<Rightarrow> on_offer eng from offer uname s
        | Answer from answer \<Rightarrow> on_answer eng from answer s
        | IceCandidateIn from cand \<Rightarrow> on_ice_candidate eng from cand s
        | UserLeft data \<Rightarrow> on_user_left data s
        | ExistingUsers users \<Rightarrow> on_existing_users users s)"

section \<open>Events of the peer connections and of the clock\<close>

datatype pc_event =
    TrackEvent "media_stream list"
  | IceCandidateEvent "ice_candidate option"
  | ConnectionStateChange

text \<open>An RTCPeerConnection that is closed fires no event. Each callback closes over the
  \<^verbatim>\<open>userId\<close> its connection was created for; \<^verbatim>\<open>onconnectionstatechange\<close> only logs.\<close>

definition pc_fires :: "nat \<Rightarrow> pc_event \<Rightarrow> hook_state \<Rightarrow> hook_state" where
  "pc_fires a ev s =
     (if a < length (connections s) \<and> \<not> pc_closed (connections s ! a)
      then (case ev of
              TrackEvent streams \<Rightarrow> ontrack (owner (connections s ! a)) streams s
            | IceCandidateEvent cand \<Rightarrow> onicecandidate (owner (connections s ! a)) cand s
            | ConnectionStateChange \<Rightarrow> s)
      else s)"

text \<open>The pending timeout that fires next: the least deadline, the older one on a tie.\<close>

fun earliest :: "(nat \<times> nat \<times> string) list \<Rightarrow> (nat \<times> nat \<times> string) option" where
  "earliest [] = None"
| "earliest (x # xs) =
     (case earliest xs of
        None \<Rightarrow> Some x
      | Some y \<Rightarrow> if fst (snd x) \<le> fst (snd y) then Some x else Some y)"

definition next_due :: "nat \<Rightarrow> (nat \<times> nat \<times> string) list \<Rightarrow> (nat \<times> nat \<times> string) option" where
  "next_due t ts = earliest (filter (\<lambda>x. fst (snd x) \<le> t) ts)"

definition fire :: "nat \<times> nat \<times> string \<Rightarrow> hook_state \<Rightarrow> hook_state" where
  "fire x s =
     onIceTimer (snd (snd x))
       (s\<lparr>timeouts := filter (\<lambda>y. fst y \<noteq> fst x) (timeouts s), now := max (now s) (fst (snd x))\<rparr>)"

text \<open>The event loop lets the clock reach \<open>t\<close>: every timeout due by then fires, in order.\<close>

function advance :: "nat \<Rightarrow> hook_state \<Rightarrow> hook_state" where
  "advance t s =
     (case next_due t (timeouts s) of
        None \<Rightarrow> s\<lparr>now := max (now s) t\<rparr>
      | Some x \<Rightarrow> advance t (fire x s))"
  by pat_completeness auto
termination
proof (relation "measure (\<lambda>(t, s). length (timeouts s))")
  show "wf (measure (\<lambda>(t, s). length (timeouts s)))"
    by simp
next
  fix t :: nat and s :: hook_state and x :: "nat \<times> nat \<times> string"
  assume due: "next_due t (timeouts s) = Some x"
  have mem: "earliest ts = Some y \<Longrightarrow> y \<in> set ts" for ts y
    by (induction ts arbitrary: y) (auto split: option.splits if_splits)
  have "x \<in> set (filter (\<lambda>y. fst (snd y) \<le> t) (timeouts s))"
    using due mem unfolding next_due_def by blast
  then have "x \<in> set (timeouts s)"
    by simp
  then have less: "length (filter (\<lambda>y. fst y \<noteq> fst x) (timeouts s)) < length (timeouts s)"
    by (intro length_filter_less[of x]) auto
  have emits: "timeouts (fold (\<lambda>c. emit (f c)) cs s') = timeouts s'" for f cs s'
    by (induction cs arbitrary: s') (simp_all add: emit_def)
  have "timeouts (onIceTimer uid s') = timeouts s'" for uid s'
    by (simp add: onIceTimer_def Let_def emits)
  then have "length (timeouts (fire x s)) < length (timeouts s)"
    using less by (simp add: fire_def)
  then show "((t, fire x s), (t, s)) \<in> measure (\<lambda>(t, s). length (timeouts s))"
    by simp
qed

declare advance.simps [simp del]

section \<open>Runs of the hook\<close>

datatype local_call =
    ReplaceTrack media_track
  | AdmitUser string
  | RejectUser string
  | ToggleMediaStatus track_kind bool
  | EmitScreenShareStatus bool

datatype action =
    Inbound in_event
  | FromPc nat pc_event
  | Call local_call
  | ClockReaches nat

definition step :: "rtc_engine \<Rightarrow> hook_state \<Rightarrow> action \<Rightarrow> hook_state" where
  "step eng s act =
     (case act of
        Inbound e \<Rightarrow> deliver eng s e
      | FromPc a ev \<Rightarrow> pc_fires a ev s
      | Call (ReplaceTrack newTrack) \<Rightarrow> replaceTrack eng newTrack s
      | Call (AdmitUser uid) \<Rightarrow> admitUser uid s
      | Call (RejectUser uid) \<Rightarrow> rejectUser uid s
      | Call (ToggleMediaStatus k isOn) \<Rightarrow> toggleMediaStatus k isOn s
      | Call (EmitScreenShareStatus isSharing) \<Rightarrow> emitScreenShareStatus isSharing s
      | ClockReaches t \<Rightarrow> advance t s)"

definition run :: "rtc_engine \<Rightarrow> hook_state \<Rightarrow> action list \<Rightarrow> hook_state" where
  "run eng s acts = foldl (step eng) s acts"

text \<open>The two fields the admission flow owns.\<close>

definition admission :: "hook_state \<Rightarrow> connection_status \<times> bool" where
  "admission s = (connectionStatus s, socket_connected s)"

text \<open>The timer fields, and what holds of them in every state the hook reaches: each
  pending timeout is the one whose handle is stored for its peer, each stored handle is
  pending, and no handle is pending twice.\<close>

definition timer_view :: "hook_state \<Rightarrow> (nat \<times> nat \<times> string) list \<times> (string \<times> nat) list \<times> nat" where
  "timer_view s = (timeouts s, iceCandidateTimers s, timerSeq s)"

definition timers_ok :: "hook_state \<Rightarrow> bool" where
  "timers_ok s =
     ((\<forall>x \<in> set (timeouts s).
         map_of (iceCandidateTimers s) (snd (snd x)) = Some (fst x) \<and> fst x \<le> timerSeq s)
      \<and> (\<forall>u h. map_of (iceCandidateTimers s) u = Some h \<longrightarrow>
             (\<exists>d. (h, d, u) \<in> set (timeouts s)))
      \<and> distinct (map fst (timeouts s)))"

text \<open>The map of peers and the store of connections, and what holds of them in every
  state the hook reaches: no peer id is mapped twice, a mapped address holds an open
  connection created for that peer id, and every open connection is the one its peer id
  is mapped to.\<close>

definition peer_view :: "hook_state \<Rightarrow> (string \<times> nat) list \<times> rtc_peer_connection list" where
  "peer_view s = (peers s, connections s)"

definition peers_ok :: "hook_state \<Rightarrow> bool" where
  "peers_ok s =
     (distinct (map fst (peers s))
      \<and> (\<forall>x \<in> set (peers s).
            snd x < length (connections s)
            \<and> \<not> pc_closed (connections s ! snd x)
            \<and> owner (connections s ! snd x) = fst x)
      \<and> (\<forall>a < length (connections s).
            \<not> pc_closed (connections s ! a) \<longrightarrow> (owner (connections s ! a), a) \<in> set (peers s)))"

section \<open>Concrete inputs for the examples\<close>

text \<open>An engine whose calls all succeed, a local stream with a microphone and a camera
  track, and the state right after the effect has run.\<close>

definition accepting :: rtc_engine where
  "accepting =
     \<lparr>createOffer = (\<lambda>pc. Some 0), createAnswer = (\<lambda>pc. Some 1),
      setLocalDescription = (\<lambda>pc d. True), setRemoteDescription = (\<lambda>pc d. True),
      addIceCandidate = (\<lambda>pc c. True), senderReplaceTrack = (\<lambda>sn t. True)\<rparr>"

definition mic_and_camera :: media_stream where
  "mic_and_camera =
     \<lparr>stream_id = 0,
      getTracks = [\<lparr>track_id = 1, kind = Audio\<rparr>, \<lparr>track_id = 2, kind = Video\<rparr>]\<rparr>"

definition mounted :: hook_state where
  "mounted = mount ''room'' ''me'' mic_and_camera"

definition user :: "string \<Rightarrow> string \<Rightarrow> user_info" where
  "user uid uname = \<lparr>userId = uid, userName = uname\<rparr>"

text \<open>A peer joins; its connection gathers candidates 1, 2 and 3 at 0, 10 and 70 ms.\<close>

definition ice_scenario :: "action list" where
  "ice_scenario =
     [Inbound (UserJoined (user ''p'' ''Pat'')),
      FromPc 0 (IceCandidateEvent (Some 1)),
      ClockReaches 10, FromPc 0 (IceCandidateEvent (Some 2)),
      ClockReaches 70, FromPc 0 (IceCandidateEvent (Some 3)),
      ClockReaches 200]"

text \<open>Two held connections, of which only the first has a video sender, and the track
  of a screen share.\<close>

definition two_peers :: hook_state where
  "two_peers =
     mounted\<lparr>connections :=
        [\<lparr>owner = ''A'',
          getSenders = [\<lparr>track = Some \<lparr>track_id = 1, kind = Audio\<rparr>\<rparr>,
                        \<lparr>track = Some \<lparr>track_id = 2, kind = Video\<rparr>\<rparr>],
          localDescription = None, remoteDescription = None, remoteCandidates = [],
          pc_closed = False\<rparr>,
         \<lparr>owner = ''B'',
          getSenders = [\<lparr>track = Some \<lparr>track_id = 1, kind = Audio\<rparr>\<rparr>],
          localDescription = None, remoteDescription = None, remoteCandidates = [],
          pc_closed = False\<rparr>],
      peers := [(''A'', 0), (''B'', 1)]\<rparr>"

definition screen_track :: media_track where
  "screen_track = \<lparr>track_id = 9, kind = Video\<rparr>"

section \<open>Host decisions: admitUser and rejectUser\<close>

text \<open>
  C9, as the code has it. \<open>admitUser\<close> and \<open>rejectUser\<close> emit the decision for the
  given id (admit-user or reject-user, with the room id) whether or not a request of that
  id is pending, so the call is never without effect; they remove from the pending queue
  every request of that id, keeping the others in order, and nothing else of the state
  changes. For an id with no pending request the queue is unchanged. Neither function has a
  failing branch.
\<close>

theorem admit_reject_dequeue:
  "emitted (admitUser uid s) = emitted s @ [(now s, AdmitUserOut uid (roomId s))]
   \<and> emitted (rejectUser uid s) = emitted s @ [(now s, RejectUserOut uid (roomId s))]
   \<and> pendingRequests (admitUser uid s) = filter (\<lambda>req. userId req \<noteq> uid) (pendingRequests s)
   \<and> pendingRequests (rejectUser uid s) = filter (\<lambda>req. userId req \<noteq> uid) (pendingRequests s)
   \<and> uid \<notin> set (map userId (pendingRequests (admitUser uid s)))
   \<and> uid \<notin> set (map userId (pendingRequests (rejectUser uid s)))
   \<and> (uid \<notin> set (map userId (pendingRequests s)) \<longrightarrow>
        pendingRequests (admitUser uid s) = pendingRequests s
        \<and> pendingRequests (rejectUser uid s) = pendingRequests s)
   \<and> admitUser uid s =
       s\<lparr>emitted := emitted (admitUser uid s),
         pendingRequests := pendingRequests (admitUser uid s)\<rparr>
   \<and> rejectUser uid s =
       s\<lparr>emitted := emitted (rejectUser uid s),
         pendingRequests := pendingRequests (rejectUser uid s)\<rparr>
   \<and> admitUser uid s \<noteq> s
   \<and> rejectUser uid s \<noteq> s"
proof -
  have main: "emitted (admitUser uid s) = emitted s @ [(now s, AdmitUserOut uid (roomId s))]
   \<and> emitted (rejectUser uid s) = emitted s @ [(now s, RejectUserOut uid (roomId s))]
   \<and> pendingRequests (admitUser uid s) = filter (\<lambda>req. userId req \<noteq> uid) (pendingRequests s)
   \<and> pendingRequests (rejectUser uid s) = filter (\<lambda>req. userId req \<noteq> uid) (pendingRequests s)
   \<and> uid \<notin> set (map userId (pendingRequests (admitUser uid s)))
   \<and> uid \<notin> set (map userId (pendingRequests (rejectUser uid s)))
   \<and> (uid \<notin> set (map userId (pendingRequests s)) \<longrightarrow>
        pendingRequests (admitUser uid s) = pendingRequests s
        \<and> pendingRequests (rejectUser uid s) = pendingRequests s)
   \<and> admitUser uid s =
       s\<lparr>emitted := emitted (admitUser uid s),
         pendingRequests := pendingRequests (admitUser uid s)\<rparr>
   \<and> rejectUser uid s =
       s\<lparr>emitted := emitted (rejectUser uid s),
         pendingRequests := pendingRequests (rejectUser uid s)\<rparr>"
    by (auto simp: admitUser_def rejectUser_def emit_def Let_def filter_id_conv)
  have "emitted (admitUser uid s) \<noteq> emitted s" "emitted (rejectUser uid s) \<noteq> emitted s"
    by (simp_all add: admitUser_def rejectUser_def emit_def Let_def)
  then have changed: "admitUser uid s \<noteq> s \<and> rejectUser uid s \<noteq> s"
    by auto
  from main changed show ?thesis
    by (intro conjI) (elim conjE, assumption)+
qed

theorem admit_reject_dequeue_witness:
  "''zed'' \<notin> set (map userId (pendingRequests (on_join_request (user ''A'' ''Ann'') mounted)))
   \<and> pendingRequests (admitUser ''zed'' (on_join_request (user ''A'' ''Ann'') mounted))
       = [user ''A'' ''Ann'']
   \<and> pendingRequests (rejectUser ''zed'' (on_join_request (user ''A'' ''Ann'') mounted))
       = [user ''A'' ''Ann'']
   \<and> ''A'' \<notin> set (map userId
         (pendingRequests (admitUser ''A'' (on_join_request (user ''A'' ''Ann'') mounted))))"
proof -
  let ?s = "on_join_request (user ''A'' ''Ann'') mounted"
  have q: "pendingRequests ?s = [user ''A'' ''Ann'']"
    by (simp add: on_join_request_def playNotificationSound_def mounted_def mount_def emit_def)
  have unknown: "''zed'' \<notin> set (map userId (pendingRequests ?s))"
    by (simp add: on_join_request_def playNotificationSound_def mounted_def mount_def emit_def
        user_def)
  note zed = mp[OF admit_reject_dequeue[of "''zed''" ?s, THEN conjunct2, THEN conjunct2,
        THEN conjunct2, THEN conjunct2, THEN conjunct2, THEN conjunct2, THEN conjunct1] unknown]
  from zed have "pendingRequests (admitUser ''zed'' ?s) = pendingRequests ?s"
    by (rule conjunct1)
  then have a: "pendingRequests (admitUser ''zed'' ?s) = [user ''A'' ''Ann'']"
    by (simp only: q)
  from zed have "pendingRequests (rejectUser ''zed'' ?s) = pendingRequests ?s"
    by (rule conjunct2)
  then have r: "pendingRequests (rejectUser ''zed'' ?s) = [user ''A'' ''Ann'']"
    by (simp only: q)
  note gone = admit_reject_dequeue[of "''A''" ?s, THEN conjunct2, THEN conjunct2,
      THEN conjunct2, THEN conjunct2, THEN conjunct1]
  show ?thesis
    by (intro conjI unknown a r gone)
qed

text \<open>A call with an id that has no pending request is not ignored: the decision message
  is sent to the server and the state is not the one before the call.\<close>

theorem unknown_id_still_emits:
  "''zed'' \<notin> set (map userId (pendingRequests mounted))
   \<and> emitted mounted = [(0, JoinRoomOut ''room'' ''me'')]
   \<and> emitted (admitUser ''zed'' mounted)
       = [(0, JoinRoomOut ''room'' ''me''), (0, AdmitUserOut ''zed'' ''room'')]
   \<and> emitted (rejectUser ''zed'' mounted)
       = [(0, JoinRoomOut ''room'' ''me''), (0, RejectUserOut ''zed'' ''room'')]
   \<and> admitUser ''zed'' mounted \<noteq> mounted
   \<and> rejectUser ''zed'' mounted \<noteq> mounted"
proof -
  have p: "''zed'' \<notin> set (map userId (pendingRequests mounted))"
    and m: "emitted mounted = [(0, JoinRoomOut ''room'' ''me'')]"
    and a: "emitted (admitUser ''zed'' mounted)
       = [(0, JoinRoomOut ''room'' ''me''), (0, AdmitUserOut ''zed'' ''room'')]"
    and r: "emitted (rejectUser ''zed'' mounted)
       = [(0, JoinRoomOut ''room'' ''me''), (0, RejectUserOut ''zed'' ''room'')]"
    by (simp_all add: admitUser_def rejectUser_def mounted_def mount_def emit_def Let_def)
  have "emitted (admitUser ''zed'' mounted) \<noteq> emitted mounted"
    unfolding a m by simp
  then have na: "admitUser ''zed'' mounted \<noteq> mounted"
    by auto
  have "emitted (rejectUser ''zed'' mounted) \<noteq> emitted mounted"
    unfolding r m by simp
  then have nr: "rejectUser ''zed'' mounted \<noteq> mounted"
    by auto
  show ?thesis
    by (intro conjI p m a r na nr)
qed

section \<open>The queue of join requests\<close>

lemma join_requests_run:
  "socket_connected s \<Longrightarrow>
     pendingRequests (run eng s (map (\<lambda>d. Inbound (JoinRequest d)) ds)) = pendingRequests s @ ds"
proof (induction ds arbitrary: s)
  case Nil
  then show ?case by (simp add: run_def)
next
  case (Cons d ds)
  let ?s1 = "step eng s (Inbound (JoinRequest d))"
  from Cons.prems have s1: "?s1 = on_join_request d s"
    by (simp add: step_def deliver_def)
  then have "socket_connected ?s1" "pendingRequests ?s1 = pendingRequests s @ [d]"
    using Cons.prems by (simp_all add: on_join_request_def playNotificationSound_def)
  with Cons.IH[of ?s1] show ?case
    by (simp add: run_def)
qed

text \<open>
  C2, as the code has it. While the socket is connected, the pending queue grows by one
  entry for each join-request event, in arrival order, whether or not the requester is
  already pending; \<open>admitUser\<close> and \<open>rejectUser\<close> remove every entry of the requester
  they are called for.
\<close>

theorem join_requests_queued:
  assumes "socket_connected s"
  shows "pendingRequests (run eng s (map (\<lambda>d. Inbound (JoinRequest d)) ds)) = pendingRequests s @ ds
    \<and> uid \<notin> set (map userId (pendingRequests
          (admitUser uid (run eng s (map (\<lambda>d. Inbound (JoinRequest d)) ds)))))
    \<and> uid \<notin> set (map userId (pendingRequests
          (rejectUser uid (run eng s (map (\<lambda>d. Inbound (JoinRequest d)) ds)))))"
  using join_requests_run[OF assms, of eng ds]
  by (auto simp: admitUser_def rejectUser_def emit_def Let_def)

theorem join_requests_queued_witness:
  "socket_connected mounted
   \<and> pendingRequests (run accepting mounted
        (map (\<lambda>d. Inbound (JoinRequest d))
           [user ''A'' ''Ann'', user ''B'' ''Bob'', user ''A'' ''Ann'']))
       = [user ''A'' ''Ann'', user ''B'' ''Bob'', user ''A'' ''Ann'']
   \<and> pendingRequests (admitUser ''A'' (run accepting mounted
        (map (\<lambda>d. Inbound (JoinRequest d))
           [user ''A'' ''Ann'', user ''B'' ''Bob'', user ''A'' ''Ann''])))
       = [user ''B'' ''Bob'']"
proof -
  let ?ds = "[user ''A'' ''Ann'', user ''B'' ''Bob'', user ''A'' ''Ann'']"
  have c: "socket_connected mounted"
    by (simp add: mounted_def mount_def emit_def)
  have e: "pendingRequests mounted = []"
    by (simp add: mounted_def mount_def emit_def)
  from join_requests_queued[OF c, of accepting ?ds "''A''"]
  have q: "pendingRequests (run accepting mounted (map (\<lambda>d. Inbound (JoinRequest d)) ?ds))
      = pendingRequests mounted @ ?ds"
    by (rule conjunct1)
  have a1: "pendingRequests (admitUser ''A'' (run accepting mounted
        (map (\<lambda>d. Inbound (JoinRequest d)) ?ds)))
      = filter (\<lambda>req. userId req \<noteq> ''A'') (pendingRequests (run accepting mounted
        (map (\<lambda>d. Inbound (JoinRequest d)) ?ds)))"
    by (simp add: admitUser_def emit_def Let_def)
  have a2: "filter (\<lambda>req. userId req \<noteq> ''A'') (pendingRequests (run accepting mounted
        (map (\<lambda>d. Inbound (JoinRequest d)) ?ds))) = [user ''B'' ''Bob'']"
    unfolding q e by (simp add: user_def)
  from a1 a2 have a: "pendingRequests (admitUser ''A'' (run accepting mounted
        (map (\<lambda>d. Inbound (JoinRequest d)) ?ds))) = [user ''B'' ''Bob'']"
    by (rule trans)
  from c q a show ?thesis
    by (simp only: e append_Nil) 
qed

text \<open>Two join-request events of the same requester leave two entries of that requester
  in the pending queue.\<close>

theorem duplicate_join_request_queued:
  "pendingRequests
     (run accepting mounted
        [Inbound (JoinRequest (user ''A'' ''Ann'')), Inbound (JoinRequest (user ''A'' ''Ann''))])
     = [user ''A'' ''Ann'', user ''A'' ''Ann'']
   \<and> \<not> distinct (map userId (pendingRequests
        (run accepting mounted
           [Inbound (JoinRequest (user ''A'' ''Ann'')),
            Inbound (JoinRequest (user ''A'' ''Ann''))])))"
  by (simp add: run_def step_def deliver_def on_join_request_def playNotificationSound_def
      mounted_def mount_def emit_def)

section \<open>The existing-users snapshot\<close>

lemma findIndex_hit: "findIndex P xs = int k \<Longrightarrow> k < length xs \<and> P (xs ! k)"
proof (induction xs arbitrary: k)
  case Nil
  then show ?case by simp
next
  case (Cons x xs)
  show ?case
  proof (cases "P x")
    case True
    with Cons.prems show ?thesis by simp
  next
    case False
    with Cons.prems have nn: "\<not> findIndex P xs < 0" and eq: "findIndex P xs + 1 = int k"
      by (auto simp: Let_def split: if_splits)
    then obtain j where k: "k = Suc j" by (cases k) auto
    with eq have "findIndex P xs = int j" by simp
    from Cons.IH[OF this] k show ?thesis by simp
  qed
qed

lemma findIndex_some: "x \<in> set xs \<Longrightarrow> P x \<Longrightarrow> \<exists>k. findIndex P xs = int k"
proof (induction xs)
  case Nil
  then show ?case by simp
next
  case (Cons y ys)
  show ?case
  proof (cases "P y")
    case True
    then show ?thesis by (auto intro: exI[of _ 0])
  next
    case False
    with Cons obtain k where "findIndex P ys = int k" by auto
    with False show ?thesis by (auto simp: Let_def intro: exI[of _ "Suc k"])
  qed
qed

lemma enumerate_filter_nth:
  "map snd (filter (\<lambda>(i, x). R i x) (enumerate 0 xs))
     = map (nth xs) (filter (\<lambda>i. R i (xs ! i)) [0..<length xs])"
proof -
  have "enumerate 0 xs = map (\<lambda>i. (i, xs ! i)) [0..<length xs]"
    by (rule nth_equalityI) (simp_all add: nth_enumerate_eq)
  then show ?thesis
    by (simp add: filter_map comp_def)
qed

lemma uniqueUsers_nth:
  "uniqueUsers users =
     map (nth users)
       (filter (\<lambda>i. int i = findIndex (\<lambda>u. userId u = userId (users ! i)) users)
          [0..<length users])"
  unfolding uniqueUsers_def by (rule enumerate_filter_nth)

lemma distinct_uniqueUsers: "distinct (map userId (uniqueUsers users))"
proof -
  let ?F = "\<lambda>i. int i = findIndex (\<lambda>u. userId u = userId (users ! i)) users"
  have "inj_on (\<lambda>i. userId (users ! i)) (set (filter ?F [0..<length users]))"
  proof (rule inj_onI)
    fix i j
    assume "i \<in> set (filter ?F [0..<length users])" "j \<in> set (filter ?F [0..<length users])"
      and same: "userId (users ! i) = userId (users ! j)"
    then have "int i = findIndex (\<lambda>u. userId u = userId (users ! i)) users"
      and "int j = findIndex (\<lambda>u. userId u = userId (users ! j)) users"
      by simp_all
    with same show "i = j" by simp
  qed
  then show ?thesis
    by (simp add: uniqueUsers_nth distinct_map comp_def)
qed

lemma set_uniqueUsers: "set (map userId (uniqueUsers users)) = set (map userId users)"
proof
  show "set (map userId (uniqueUsers users)) \<subseteq> set (map userId users)"
    by (auto simp: uniqueUsers_nth)
next
  show "set (map userId users) \<subseteq> set (map userId (uniqueUsers users))"
  proof
    fix n assume "n \<in> set (map userId users)"
    then obtain x where x: "x \<in> set users" "userId x = n" by auto
    then obtain k where k: "findIndex (\<lambda>u. userId u = n) users = int k"
      using findIndex_some[of x users "\<lambda>u. userId u = n"] by auto
    from findIndex_hit[OF k] have kl: "k < length users" and kn: "userId (users ! k) = n"
      by simp_all
    have "int k = findIndex (\<lambda>u. userId u = userId (users ! k)) users"
      using k kn by simp
    with kl have "users ! k \<in> set (uniqueUsers users)"
      by (auto simp: uniqueUsers_nth)
    with kn show "n \<in> set (map userId (uniqueUsers users))"
      by force
  qed
qed

text \<open>
  C7. A delivered existing-users snapshot makes the roster hold exactly one participant
  for each distinct userId of the list (no id twice, the same set of ids, as many entries
  as distinct ids) and sets the status to joined.
\<close>

theorem existing_users_roster:
  assumes "socket_connected s"
  shows "distinct (map id_p (participants (deliver eng s (ExistingUsers users))))
    \<and> set (map id_p (participants (deliver eng s (ExistingUsers users)))) = set (map userId users)
    \<and> length (participants (deliver eng s (ExistingUsers users))) = card (set (map userId users))
    \<and> connectionStatus (deliver eng s (ExistingUsers users)) = Joined"
proof -
  have ids: "map id_p (participants (deliver eng s (ExistingUsers users)))
      = map userId (uniqueUsers users)"
    using assms by (simp add: deliver_def on_existing_users_def new_participant_def comp_def)
  have "length (participants (deliver eng s (ExistingUsers users)))
      = length (map userId (uniqueUsers users))"
    using assms by (simp add: deliver_def on_existing_users_def)
  also have "\<dots> = card (set (map userId (uniqueUsers users)))"
    using distinct_uniqueUsers[of users] by (simp only: distinct_card)
  finally have len: "length (participants (deliver eng s (ExistingUsers users)))
      = card (set (map userId users))"
    by (simp only: set_uniqueUsers)
  have "connectionStatus (deliver eng s (ExistingUsers users)) = Joined"
    using assms by (simp add: deliver_def on_existing_users_def)
  then show ?thesis
    unfolding ids using len by (simp add: distinct_uniqueUsers set_uniqueUsers del: set_map)
qed

theorem existing_users_roster_witness:
  "socket_connected mounted
   \<and> map id_p (participants (deliver accepting mounted
        (ExistingUsers [user ''A'' ''Ann'', user ''A'' ''Ann'', user ''B'' ''Bob''])))
       = [''A'', ''B'']
   \<and> length (participants (deliver accepting mounted
        (ExistingUsers [user ''A'' ''Ann'', user ''A'' ''Ann'', user ''B'' ''Bob'']))) = 2
   \<and> connectionStatus (deliver accepting mounted
        (ExistingUsers [user ''A'' ''Ann'', user ''A'' ''Ann'', user ''B'' ''Bob''])) = Joined"
proof -
  let ?users = "[user ''A'' ''Ann'', user ''A'' ''Ann'', user ''B'' ''Bob'']"
  have c: "socket_connected mounted"
    by (simp add: mounted_def mount_def emit_def)
  have ids: "map id_p (participants (deliver accepting mounted (ExistingUsers ?users)))
      = [''A'', ''B'']"
    by (simp add: deliver_def on_existing_users_def new_participant_def uniqueUsers_def user_def
        mounted_def mount_def emit_def enumerate_eq_zip)
  have "card (set (map userId ?users)) = 2"
    by (simp add: user_def)
  with existing_users_roster[OF c, of accepting ?users]
  have "length (participants (deliver accepting mounted (ExistingUsers ?users))) = 2"
    and "connectionStatus (deliver accepting mounted (ExistingUsers ?users)) = Joined"
    by simp_all
  with c ids show ?thesis
    by simp
qed

section \<open>The connection status\<close>

text \<open>Only four handlers write the status or disconnect the socket; everything else
  leaves both as they are.\<close>

lemma admission_emit: "admission (emit m s) = admission s"
  by (simp add: admission_def emit_def)

lemma admission_fold_emit: "admission (fold (\<lambda>c. emit (f c)) cs s) = admission s"
  by (induction cs arbitrary: s) (simp_all add: admission_emit)

lemma admission_update_pc: "admission (update_pc a f s) = admission s"
  by (simp add: admission_def update_pc_def)

lemma admission_fold_update_pc:
  "admission (fold (\<lambda>(uid, a). update_pc a (f uid a)) ps s) = admission s"
  by (induction ps arbitrary: s) (auto simp: admission_update_pc)

lemma admission_createPeerConnection:
  "admission (createPeerConnection eng uid uname ini strm s) = admission s"
  by (simp add: createPeerConnection_def Let_def admission_emit admission_update_pc
      split: option.splits) (simp add: admission_def)

lemma admission_add_participant: "admission (add_participant uid uname s) = admission s"
  by (simp add: admission_def add_participant_def)

lemma admission_onIceTimer: "admission (onIceTimer uid s) = admission s"
proof -
  have "admission (s'\<lparr>iceCandidateQueue := q\<rparr>) = admission s'"
    and "admission (s'\<lparr>iceCandidateTimers := ts\<rparr>) = admission s'" for s' q ts
    by (simp_all add: admission_def)
  then show ?thesis
    by (simp add: onIceTimer_def Let_def admission_fold_emit)
qed

lemma admission_onicecandidate: "admission (onicecandidate uid cand s) = admission s"
  by (simp add: admission_def onicecandidate_def Let_def setTimeout_def clearTimeout_def
      split: option.splits)

lemma admission_pc_fires: "admission (pc_fires a ev s) = admission s"
  by (simp add: pc_fires_def admission_onicecandidate split: pc_event.splits)
    (simp add: admission_def ontrack_def)

lemma admission_fire: "admission (fire x s) = admission s"
  by (simp add: fire_def admission_onIceTimer) (simp add: admission_def)

lemma admission_advance: "admission (advance t s) = admission s"
proof (induction t s rule: advance.induct)
  case (1 t s)
  show ?case
  proof (cases "next_due t (timeouts s)")
    case None
    then show ?thesis by (subst advance.simps) (simp add: admission_def)
  next
    case (Some x)
    with "1.IH" show ?thesis by (subst advance.simps) (simp add: admission_fire)
  qed
qed

lemma admission_call:
  "admission (replaceTrack eng newTrack s) = admission s"
  "admission (admitUser uid s) = admission s"
  "admission (rejectUser uid s) = admission s"
  "admission (toggleMediaStatus k isOn s) = admission s"
  "admission (emitScreenShareStatus isSharing s) = admission s"
  by (simp_all add: replaceTrack_def admission_fold_update_pc toggleMediaStatus_def
      emitScreenShareStatus_def admission_emit)
    (simp_all add: admission_def admitUser_def rejectUser_def emit_def Let_def)

lemma admission_on_offer: "admission (on_offer eng from offer uname s) = admission s"
  by (simp add: on_offer_def Let_def admission_emit admission_update_pc
      admission_createPeerConnection admission_add_participant split: option.splits)

lemma admission_handlers:
  "admission (on_join_request data s) = admission s"
  "admission (on_user_joined eng data s) = admission s"
  "admission (on_media_status_update uid k isOn s) = admission s"
  "admission (on_answer eng from answer s) = admission s"
  "admission (on_ice_candidate eng from cand s) = admission s"
  "admission (on_user_left data s) = admission s"
  by (simp_all add: on_user_joined_def on_answer_def on_ice_candidate_def Let_def
      admission_createPeerConnection admission_add_participant admission_update_pc
      split: option.splits)
    (simp_all add: admission_def on_join_request_def playNotificationSound_def
      on_media_status_update_def on_user_left_def update_pc_def Let_def split: option.splits)

text \<open>What one step does to the status and to the socket.\<close>

lemma admission_step:
  "admission (step eng s act) =
     (if \<not> socket_connected s then admission s
      else if act = Inbound WaitingForApproval then (Waiting, True)
      else if act = Inbound JoinApproved then (Joined, True)
      else if act = Inbound JoinRejected then (Rejected, False)
      else if (\<exists>users. act = Inbound (ExistingUsers users)) then (Joined, True)
      else admission s)"
proof (cases act)
  case (Inbound e)
  show ?thesis
  proof (cases "socket_connected s")
    case False
    then show ?thesis by (simp add: Inbound step_def deliver_def)
  next
    case True
    then show ?thesis
      by (cases e)
        (simp_all add: Inbound step_def deliver_def admission_handlers admission_on_offer,
          simp_all add: admission_def on_waiting_for_approval_def on_join_approved_def
            on_join_rejected_def on_existing_users_def playNotificationSound_def)
  qed
next
  case (FromPc a ev)
  then show ?thesis by (simp add: step_def admission_pc_fires)
next
  case (Call c)
  then show ?thesis by (cases c) (simp_all add: step_def admission_call)
next
  case (ClockReaches t)
  then show ?thesis by (simp add: step_def admission_advance)
qed

lemma run_snoc: "run eng s (acts @ [act]) = step eng (run eng s acts) act"
  by (simp add: run_def)

lemma rejected_disconnected:
  assumes "connectionStatus s = Rejected \<longrightarrow> \<not> socket_connected s"
  shows "connectionStatus (run eng s acts) = Rejected \<longrightarrow> \<not> socket_connected (run eng s acts)"
proof (induction acts rule: rev_induct)
  case Nil
  with assms show ?case by (simp add: run_def)
next
  case (snoc act acts)
  from snoc have IH: "connectionStatus (run eng s acts) = Rejected \<longrightarrow> \<not> socket_connected (run eng s acts)" .
  have "admission (run eng s (acts @ [act])) \<noteq> (Rejected, True)"
    using IH by (auto simp: run_snoc admission_step) (auto simp: admission_def)
  then show ?case
    by (auto simp: admission_def)
qed

lemma rejected_stays:
  assumes "connectionStatus s = Rejected" "\<not> socket_connected s"
  shows "admission (run eng s acts) = (Rejected, False)"
proof (induction acts rule: rev_induct)
  case Nil
  with assms show ?case by (simp add: run_def admission_def)
next
  case (snoc act acts)
  then show ?case
    by (simp add: run_snoc admission_step) (simp add: admission_def)
qed

lemma mount_admission: "admission (mount room uname strm) = (Connecting, True)"
  by (simp add: admission_def mount_def emit_def)

lemma connected_iff_not_rejected:
  assumes "socket_connected s = (connectionStatus s \<noteq> Rejected)"
  shows "socket_connected (run eng s acts) = (connectionStatus (run eng s acts) \<noteq> Rejected)"
proof (induction acts rule: rev_induct)
  case Nil
  with assms show ?case by (simp add: run_def)
next
  case (snoc act acts)
  have "snd (admission (step eng (run eng s acts) act))
      = (fst (admission (step eng (run eng s acts) act)) \<noteq> Rejected)"
    unfolding admission_step using snoc by (auto simp: admission_def)
  then show ?case
    by (simp add: run_snoc admission_def)
qed

text \<open>
  C1, as the code has it. In every state reached from the mounted hook: once the status is
  rejected the socket is disconnected, and neither the next step nor any later run changes
  the status; the status becomes rejected only on join-rejected, which disconnects the
  socket; it becomes joined only from connecting or waiting, on join-approved or
  existing-users; it becomes waiting only on waiting-for-approval, from connecting or from
  joined; and it never returns to connecting. While the status is not rejected the socket is
  connected, and then waiting-for-approval sets waiting, join-approved and existing-users
  set joined, and join-rejected sets rejected and disconnects the socket, each whatever the
  status was; any other step leaves the status and the socket as they are, and no step but
  join-rejected disconnects the socket.
\<close>

theorem status_transitions:
  "let s = run eng (mount room uname strm) acts; s' = step eng s act in
     (connectionStatus s = Rejected \<longrightarrow>
        \<not> socket_connected s \<and> connectionStatus s' = Rejected
        \<and> connectionStatus (run eng s later) = Rejected)
   \<and> (connectionStatus s \<noteq> Rejected \<and> connectionStatus s' = Rejected \<longrightarrow>
        act = Inbound JoinRejected \<and> \<not> socket_connected s')
   \<and> (connectionStatus s \<noteq> Joined \<and> connectionStatus s' = Joined \<longrightarrow>
        (connectionStatus s = Connecting \<or> connectionStatus s = Waiting)
        \<and> (act = Inbound JoinApproved \<or> (\<exists>users. act = Inbound (ExistingUsers users))))
   \<and> (connectionStatus s \<noteq> Waiting \<and> connectionStatus s' = Waiting \<longrightarrow>
        (connectionStatus s = Connecting \<or> connectionStatus s = Joined)
        \<and> act = Inbound WaitingForApproval)
   \<and> (connectionStatus s' = Connecting \<longrightarrow> connectionStatus s = Connecting)
   \<and> (connectionStatus s \<noteq> Rejected \<longrightarrow>
        socket_connected s
        \<and> connectionStatus (step eng s (Inbound WaitingForApproval)) = Waiting
        \<and> socket_connected (step eng s (Inbound WaitingForApproval))
        \<and> connectionStatus (step eng s (Inbound JoinApproved)) = Joined
        \<and> socket_connected (step eng s (Inbound JoinApproved))
        \<and> connectionStatus (step eng s (Inbound (ExistingUsers snapshot))) = Joined
        \<and> socket_connected (step eng s (Inbound (ExistingUsers snapshot)))
        \<and> connectionStatus (step eng s (Inbound JoinRejected)) = Rejected
        \<and> \<not> socket_connected (step eng s (Inbound JoinRejected)))
   \<and> (act \<noteq> Inbound WaitingForApproval \<and> act \<noteq> Inbound JoinApproved
        \<and> act \<noteq> Inbound JoinRejected \<and> (\<forall>users. act \<noteq> Inbound (ExistingUsers users)) \<longrightarrow>
        connectionStatus s' = connectionStatus s \<and> socket_connected s' = socket_connected s)
   \<and> (socket_connected s \<and> act \<noteq> Inbound JoinRejected \<longrightarrow> socket_connected s')"
proof -
  define s where "s = run eng (mount room uname strm) acts"
  define s' where "s' = step eng s act"
  have live: "socket_connected s = (connectionStatus s \<noteq> Rejected)"
    unfolding s_def using mount_admission[of room uname strm]
    by (intro connected_iff_not_rejected) (simp add: admission_def)
  have at: "(connectionStatus (step eng s a), socket_connected (step eng s a)) =
     (if \<not> socket_connected s then (connectionStatus s, socket_connected s)
      else if a = Inbound WaitingForApproval then (Waiting, True)
      else if a = Inbound JoinApproved then (Joined, True)
      else if a = Inbound JoinRejected then (Rejected, False)
      else if (\<exists>users. a = Inbound (ExistingUsers users)) then (Joined, True)
      else (connectionStatus s, socket_connected s))" for a
    using admission_step[of eng s a] by (simp add: admission_def)
  have c6: "connectionStatus s \<noteq> Rejected \<longrightarrow>
        socket_connected s
        \<and> connectionStatus (step eng s (Inbound WaitingForApproval)) = Waiting
        \<and> socket_connected (step eng s (Inbound WaitingForApproval))
        \<and> connectionStatus (step eng s (Inbound JoinApproved)) = Joined
        \<and> socket_connected (step eng s (Inbound JoinApproved))
        \<and> connectionStatus (step eng s (Inbound (ExistingUsers snapshot))) = Joined
        \<and> socket_connected (step eng s (Inbound (ExistingUsers snapshot)))
        \<and> connectionStatus (step eng s (Inbound JoinRejected)) = Rejected
        \<and> \<not> socket_connected (step eng s (Inbound JoinRejected))"
  proof
    assume "connectionStatus s \<noteq> Rejected"
    with live have conn: "socket_connected s"
      by simp
    then have "admission (step eng s (Inbound WaitingForApproval)) = (Waiting, True)"
      and "admission (step eng s (Inbound JoinApproved)) = (Joined, True)"
      and "admission (step eng s (Inbound (ExistingUsers snapshot))) = (Joined, True)"
      and "admission (step eng s (Inbound JoinRejected)) = (Rejected, False)"
      by (simp_all add: admission_step)
    with conn show "socket_connected s
        \<and> connectionStatus (step eng s (Inbound WaitingForApproval)) = Waiting
        \<and> socket_connected (step eng s (Inbound WaitingForApproval))
        \<and> connectionStatus (step eng s (Inbound JoinApproved)) = Joined
        \<and> socket_connected (step eng s (Inbound JoinApproved))
        \<and> connectionStatus (step eng s (Inbound (ExistingUsers snapshot))) = Joined
        \<and> socket_connected (step eng s (Inbound (ExistingUsers snapshot)))
        \<and> connectionStatus (step eng s (Inbound JoinRejected)) = Rejected
        \<and> \<not> socket_connected (step eng s (Inbound JoinRejected))"
      by (simp add: admission_def)
  qed
  have c7: "act \<noteq> Inbound WaitingForApproval \<and> act \<noteq> Inbound JoinApproved
        \<and> act \<noteq> Inbound JoinRejected \<and> (\<forall>users. act \<noteq> Inbound (ExistingUsers users)) \<longrightarrow>
        connectionStatus s' = connectionStatus s \<and> socket_connected s' = socket_connected s"
    using at[of act] by (auto simp: s'_def split: if_splits)
  have c8: "socket_connected s \<and> act \<noteq> Inbound JoinRejected \<longrightarrow> socket_connected s'"
    using at[of act] by (auto simp: s'_def split: if_splits)
  have inv: "connectionStatus s = Rejected \<longrightarrow> \<not> socket_connected s"
    unfolding s_def using mount_admission[of room uname strm]
    by (intro rejected_disconnected) (simp add: admission_def)
  have st: "(connectionStatus s', socket_connected s') =
     (if \<not> socket_connected s then (connectionStatus s, socket_connected s)
      else if act = Inbound WaitingForApproval then (Waiting, True)
      else if act = Inbound JoinApproved then (Joined, True)
      else if act = Inbound JoinRejected then (Rejected, False)
      else if (\<exists>users. act = Inbound (ExistingUsers users)) then (Joined, True)
      else (connectionStatus s, socket_connected s))"
    using admission_step[of eng s act] by (simp add: admission_def s'_def)
  have terminal: "connectionStatus s = Rejected \<longrightarrow> connectionStatus (run eng s later) = Rejected"
    using inv rejected_stays[of s eng later] by (auto simp: admission_def)
  have c1: "connectionStatus s = Rejected \<longrightarrow>
        \<not> socket_connected s \<and> connectionStatus s' = Rejected
        \<and> connectionStatus (run eng s later) = Rejected"
    using inv st terminal by (auto split: if_splits)
  have c2: "connectionStatus s \<noteq> Rejected \<and> connectionStatus s' = Rejected \<longrightarrow>
        act = Inbound JoinRejected \<and> \<not> socket_connected s'"
    using st by (auto split: if_splits)
  have c3: "connectionStatus s \<noteq> Joined \<and> connectionStatus s' = Joined \<longrightarrow>
        (connectionStatus s = Connecting \<or> connectionStatus s = Waiting)
        \<and> (act = Inbound JoinApproved \<or> (\<exists>users. act = Inbound (ExistingUsers users)))"
    using inv st by (cases "connectionStatus s") (auto split: if_splits)
  have c4: "connectionStatus s \<noteq> Waiting \<and> connectionStatus s' = Waiting \<longrightarrow>
        (connectionStatus s = Connecting \<or> connectionStatus s = Joined)
        \<and> act = Inbound WaitingForApproval"
    using inv st by (cases "connectionStatus s") (auto split: if_splits)
  have c5: "connectionStatus s' = Connecting \<longrightarrow> connectionStatus s = Connecting"
    using st by (auto split: if_splits)
  from c1 c2 c3 c4 c5 c6 c7 c8 show ?thesis
    unfolding Let_def s_def[symmetric] s'_def[symmetric] by (intro conjI)
qed

text \<open>The admission sequence of the specification: waiting-for-approval, then
  join-rejected; the events that follow change nothing.\<close>

theorem rejected_is_terminal_witness:
  "connectionStatus (run accepting (mount ''room'' ''me'' mic_and_camera) []) = Connecting
   \<and> connectionStatus (step accepting (run accepting (mount ''room'' ''me'' mic_and_camera) [])
        (Inbound WaitingForApproval)) = Waiting
   \<and> connectionStatus (step accepting (run accepting (mount ''room'' ''me'' mic_and_camera) [])
        (Inbound JoinApproved)) = Joined
   \<and> connectionStatus (step accepting (run accepting (mount ''room'' ''me'' mic_and_camera) [])
        (Inbound (ExistingUsers [user ''A'' ''Ann'']))) = Joined
   \<and> connectionStatus (run accepting (mount ''room'' ''me'' mic_and_camera)
       [Inbound WaitingForApproval]) = Waiting
   \<and> connectionStatus (run accepting (mount ''room'' ''me'' mic_and_camera)
       [Inbound WaitingForApproval, Inbound JoinRejected]) = Rejected
   \<and> \<not> socket_connected (run accepting (mount ''room'' ''me'' mic_and_camera)
       [Inbound WaitingForApproval, Inbound JoinRejected])
   \<and> connectionStatus (run accepting
        (run accepting (mount ''room'' ''me'' mic_and_camera)
           [Inbound WaitingForApproval, Inbound JoinRejected])
        [Inbound JoinApproved, Inbound (ExistingUsers [user ''A'' ''Ann''])]) = Rejected"
proof -
  let ?m = "mount ''room'' ''me'' mic_and_camera"
  let ?snap = "[user ''A'' ''Ann'']"
  have c0: "connectionStatus (run accepting ?m []) = Connecting"
    by (simp add: run_def mount_def emit_def)
  then have n0: "connectionStatus (run accepting ?m []) \<noteq> Rejected"
    by simp
  note fresh = status_transitions[of accepting "''room''" "''me''" mic_and_camera
      "[]" "Inbound JoinApproved" "[]" ?snap, unfolded Let_def]
  note sets0 = mp[OF fresh[THEN conjunct2, THEN conjunct2, THEN conjunct2, THEN conjunct2,
        THEN conjunct2, THEN conjunct1] n0]
  from sets0 have w0: "connectionStatus (step accepting (run accepting ?m [])
      (Inbound WaitingForApproval)) = Waiting"
    by (rule conjunct2[THEN conjunct1])
  from sets0 have a0: "connectionStatus (step accepting (run accepting ?m [])
      (Inbound JoinApproved)) = Joined"
    by (rule conjunct2[THEN conjunct2, THEN conjunct2, THEN conjunct1])
  from sets0 have e0: "connectionStatus (step accepting (run accepting ?m [])
      (Inbound (ExistingUsers ?snap))) = Joined"
    by (rule conjunct2[THEN conjunct2, THEN conjunct2, THEN conjunct2, THEN conjunct2,
          THEN conjunct1])
  have one: "run accepting ?m [Inbound WaitingForApproval]
      = step accepting (run accepting ?m []) (Inbound WaitingForApproval)"
    by (simp add: run_def)
  have w: "connectionStatus (run accepting ?m [Inbound WaitingForApproval]) = Waiting"
    unfolding one by (rule w0)
  then have n1: "connectionStatus (run accepting ?m [Inbound WaitingForApproval]) \<noteq> Rejected"
    by simp
  note waiting = status_transitions[of accepting "''room''" "''me''" mic_and_camera
      "[Inbound WaitingForApproval]" "Inbound JoinRejected" "[]" ?snap, unfolded Let_def]
  note sets1 = mp[OF waiting[THEN conjunct2, THEN conjunct2, THEN conjunct2, THEN conjunct2,
        THEN conjunct2, THEN conjunct1] n1]
  have two: "run accepting ?m [Inbound WaitingForApproval, Inbound JoinRejected]
      = step accepting (run accepting ?m [Inbound WaitingForApproval]) (Inbound JoinRejected)"
    by (simp add: run_def)
  from sets1 have r: "connectionStatus (run accepting ?m
      [Inbound WaitingForApproval, Inbound JoinRejected]) = Rejected"
    unfolding two
    by (rule conjunct2[THEN conjunct2, THEN conjunct2, THEN conjunct2, THEN conjunct2,
          THEN conjunct2, THEN conjunct2, THEN conjunct1])
  from sets1 have d: "\<not> socket_connected (run accepting ?m
      [Inbound WaitingForApproval, Inbound JoinRejected])"
    unfolding two
    by (rule conjunct2[THEN conjunct2, THEN conjunct2, THEN conjunct2, THEN conjunct2,
          THEN conjunct2, THEN conjunct2, THEN conjunct2])
  note rejected = status_transitions[of accepting "''room''" "''me''" mic_and_camera
      "[Inbound WaitingForApproval, Inbound JoinRejected]" "Inbound JoinApproved"
      "[Inbound JoinApproved, Inbound (ExistingUsers ?snap)]" ?snap, unfolded Let_def]
  from mp[OF rejected[THEN conjunct1] r]
  have t: "connectionStatus (run accepting
        (run accepting ?m [Inbound WaitingForApproval, Inbound JoinRejected])
        [Inbound JoinApproved, Inbound (ExistingUsers ?snap)]) = Rejected"
    by (rule conjunct2[THEN conjunct2])
  show ?thesis
    by (intro conjI c0 w0 a0 e0 w r d t)
qed

text \<open>The status is not forward-only: waiting-for-approval takes a joined client back
  to waiting.\<close>

theorem joined_back_to_waiting:
  "connectionStatus (run accepting mounted [Inbound JoinApproved]) = Joined
   \<and> connectionStatus (run accepting mounted [Inbound JoinApproved, Inbound WaitingForApproval])
       = Waiting"
  by (simp add: run_def step_def deliver_def on_waiting_for_approval_def on_join_approved_def
      playNotificationSound_def mounted_def mount_def emit_def)

section \<open>The ICE candidate queue and its timer\<close>

lemma emitted_fold_emit:
  "emitted (fold (\<lambda>c. emit (f c)) cs s) = emitted s @ map (\<lambda>c. (now s, f c)) cs
   \<and> now (fold (\<lambda>c. emit (f c)) cs s) = now s"
  by (induction cs arbitrary: s) (simp_all add: emit_def)

lemma queued_delete: "queued uid (s\<lparr>iceCandidateQueue := AList.delete uid (iceCandidateQueue s)\<rparr>) = []"
  by (simp add: queued_def delete_conv')

lemma onIceTimer_emitted:
  "emitted (onIceTimer uid s)
     = emitted s @ map (\<lambda>c. (now s, IceCandidateOut (roomId s) uid c)) (queued uid s)"
  by (simp add: onIceTimer_def Let_def emitted_fold_emit)

lemma onIceTimer_queued: "queued uid (onIceTimer uid s) = []"
  by (simp add: onIceTimer_def Let_def queued_def delete_conv')

lemma onIceTimer_queued_other: "u \<noteq> uid \<Longrightarrow> queued u (onIceTimer uid s) = queued u s"
  by (simp add: onIceTimer_def Let_def queued_def delete_conv')

lemma onIceTimer_timer: "map_of (iceCandidateTimers (onIceTimer uid s)) uid = None"
  by (simp add: onIceTimer_def Let_def delete_conv')

text \<open>
  C3, as the code has it. The timer callback emits one ice-candidate message for each
  queued candidate of the peer, in queue order and all at the same clock reading, then the
  peer's queue is empty and its timer entry is gone.
\<close>

theorem ice_flush_per_candidate:
  "emitted (onIceTimer uid s)
     = emitted s @ map (\<lambda>c. (now s, IceCandidateOut (roomId s) uid c)) (queued uid s)
   \<and> length (emitted (onIceTimer uid s)) = length (emitted s) + length (queued uid s)
   \<and> queued uid (onIceTimer uid s) = []
   \<and> map_of (iceCandidateTimers (onIceTimer uid s)) uid = None"
  by (simp add: onIceTimer_emitted onIceTimer_queued onIceTimer_timer)

text \<open>Two candidates queued for one peer leave as two messages when the timer fires at
  60 ms; nothing has been sent at 59 ms.\<close>

theorem two_candidates_two_messages:
  "emitted (run accepting mounted
      [Inbound (UserJoined (user ''p'' ''Pat'')), FromPc 0 (IceCandidateEvent (Some 1)),
       ClockReaches 10, FromPc 0 (IceCandidateEvent (Some 2)), ClockReaches 59])
     = [(0, JoinRoomOut ''room'' ''me''), (0, OfferOut ''room'' ''p'' 0 ''Pat'')]
   \<and> emitted (run accepting mounted
      [Inbound (UserJoined (user ''p'' ''Pat'')), FromPc 0 (IceCandidateEvent (Some 1)),
       ClockReaches 10, FromPc 0 (IceCandidateEvent (Some 2)), ClockReaches 60])
     = [(0, JoinRoomOut ''room'' ''me''), (0, OfferOut ''room'' ''p'' 0 ''Pat''),
        (60, IceCandidateOut ''room'' ''p'' 1), (60, IceCandidateOut ''room'' ''p'' 2)]"
  by code_simp

lemma timers_ok_view: "timer_view s' = timer_view s \<Longrightarrow> timers_ok s' = timers_ok s"
  by (simp add: timer_view_def timers_ok_def)

lemma timer_view_emit: "timer_view (emit m s) = timer_view s"
  by (simp add: timer_view_def emit_def)

lemma timer_view_update_pc: "timer_view (update_pc a f s) = timer_view s"
  by (simp add: timer_view_def update_pc_def)

lemma timer_view_fold_update_pc:
  "timer_view (fold (\<lambda>(uid, a). update_pc a (f uid a)) ps s) = timer_view s"
  by (induction ps arbitrary: s) (auto simp: timer_view_update_pc)

lemma timer_view_createPeerConnection:
  "timer_view (createPeerConnection eng uid uname ini strm s) = timer_view s"
  by (simp add: createPeerConnection_def Let_def timer_view_emit timer_view_update_pc
      split: option.splits) (simp add: timer_view_def)

lemma timer_view_add_participant: "timer_view (add_participant uid uname s) = timer_view s"
  by (simp add: timer_view_def add_participant_def)

lemma timer_view_call:
  "timer_view (replaceTrack eng newTrack s) = timer_view s"
  "timer_view (admitUser uid s) = timer_view s"
  "timer_view (rejectUser uid s) = timer_view s"
  "timer_view (toggleMediaStatus k isOn s) = timer_view s"
  "timer_view (emitScreenShareStatus isSharing s) = timer_view s"
  by (simp_all add: replaceTrack_def timer_view_fold_update_pc toggleMediaStatus_def
      emitScreenShareStatus_def timer_view_emit)
    (simp_all add: timer_view_def admitUser_def rejectUser_def emit_def Let_def)

lemma timer_view_on_offer: "timer_view (on_offer eng from offer uname s) = timer_view s"
  by (simp add: on_offer_def Let_def timer_view_emit timer_view_update_pc
      timer_view_createPeerConnection timer_view_add_participant split: option.splits)

lemma timer_view_handlers:
  "timer_view (on_waiting_for_approval s) = timer_view s"
  "timer_view (on_join_approved s) = timer_view s"
  "timer_view (on_join_rejected s) = timer_view s"
  "timer_view (on_existing_users users s) = timer_view s"
  "timer_view (on_join_request data s) = timer_view s"
  "timer_view (on_user_joined eng data s) = timer_view s"
  "timer_view (on_media_status_update uid k isOn s) = timer_view s"
  "timer_view (on_answer eng from answer s) = timer_view s"
  "timer_view (on_ice_candidate eng from cand s) = timer_view s"
  "timer_view (on_user_left data s) = timer_view s"
  by (simp_all add: on_user_joined_def on_answer_def on_ice_candidate_def Let_def
      timer_view_createPeerConnection timer_view_add_participant timer_view_update_pc
      split: option.splits)
    (simp_all add: timer_view_def on_join_request_def playNotificationSound_def
      on_media_status_update_def on_user_left_def update_pc_def Let_def
      on_waiting_for_approval_def on_join_approved_def on_join_rejected_def
      on_existing_users_def split: option.splits)

lemma timer_view_deliver: "timer_view (deliver eng s e) = timer_view s"
  by (cases e) (simp_all add: deliver_def timer_view_handlers timer_view_on_offer)

lemma timer_view_ontrack: "timer_view (ontrack uid streams s) = timer_view s"
  by (simp add: timer_view_def ontrack_def)

text \<open>What a gathered candidate does to the timers.\<close>

lemma onicecandidate_timeouts:
  "timeouts (onicecandidate uid (Some c) s) =
     filter (\<lambda>x. map_of (iceCandidateTimers s) uid \<noteq> Some (fst x)) (timeouts s)
       @ [(Suc (timerSeq s), now s + 50, uid)]"
  by (auto simp: onicecandidate_def Let_def setTimeout_def clearTimeout_def
      split: option.splits intro: filter_cong)

lemma onicecandidate_timers:
  "iceCandidateTimers (onicecandidate uid (Some c) s)
     = AList.update uid (Suc (timerSeq s)) (iceCandidateTimers s)
   \<and> timerSeq (onicecandidate uid (Some c) s) = Suc (timerSeq s)"
  by (simp add: onicecandidate_def Let_def setTimeout_def clearTimeout_def split: option.splits)

lemma onicecandidate_queued:
  "queued u (onicecandidate uid (Some c) s) = (if u = uid then queued uid s @ [c] else queued u s)"
  by (simp add: onicecandidate_def Let_def setTimeout_def clearTimeout_def queued_def
      update_conv' split: option.splits)

lemma onicecandidate_emitted: "emitted (onicecandidate uid cand s) = emitted s"
  by (simp add: onicecandidate_def Let_def setTimeout_def clearTimeout_def
      split: option.splits)

text \<open>Under the invariant, the pending timeouts of a peer are those with the handle
  stored for it.\<close>

lemma timers_ok_handle:
  assumes "timers_ok s" "x \<in> set (timeouts s)"
  shows "(map_of (iceCandidateTimers s) uid = Some (fst x)) = (snd (snd x) = uid)"
proof
  assume stored: "map_of (iceCandidateTimers s) uid = Some (fst x)"
  with assms(1) obtain d where "(fst x, d, uid) \<in> set (timeouts s)"
    unfolding timers_ok_def by blast
  moreover from assms(1) have "distinct (map fst (timeouts s))"
    by (simp add: timers_ok_def)
  ultimately have "x = (fst x, d, uid)"
    using assms(2) by (metis eq_key_imp_eq_value prod.collapse)
  then show "snd (snd x) = uid"
    by (metis snd_conv)
next
  assume "snd (snd x) = uid"
  with assms show "map_of (iceCandidateTimers s) uid = Some (fst x)"
    unfolding timers_ok_def by blast
qed

lemma timers_ok_onicecandidate:
  assumes "timers_ok s"
  shows "timers_ok (onicecandidate uid cand s)"
proof (cases cand)
  case None
  with assms show ?thesis by (simp add: onicecandidate_def)
next
  case (Some c)
  let ?h = "Suc (timerSeq s)"
  let ?kept = "filter (\<lambda>x. map_of (iceCandidateTimers s) uid \<noteq> Some (fst x)) (timeouts s)"
  have kept: "x \<in> set ?kept \<longleftrightarrow> x \<in> set (timeouts s) \<and> snd (snd x) \<noteq> uid" for x
    using timers_ok_handle[OF assms, of x uid] by auto
  have old: "x \<in> set (timeouts s) \<Longrightarrow>
      map_of (iceCandidateTimers s) (snd (snd x)) = Some (fst x) \<and> fst x \<le> timerSeq s" for x
    using assms unfolding timers_ok_def by blast
  have p1: "\<forall>x \<in> set (?kept @ [(?h, now s + 50, uid)]).
      map_of (AList.update uid ?h (iceCandidateTimers s)) (snd (snd x)) = Some (fst x)
      \<and> fst x \<le> Suc (timerSeq s)"
  proof
    fix x assume "x \<in> set (?kept @ [(?h, now s + 50, uid)])"
    then consider "x \<in> set (timeouts s)" "snd (snd x) \<noteq> uid" | "x = (?h, now s + 50, uid)"
      using kept by auto
    then show "map_of (AList.update uid ?h (iceCandidateTimers s)) (snd (snd x)) = Some (fst x)
      \<and> fst x \<le> Suc (timerSeq s)"
    proof cases
      case 1
      with old[of x] show ?thesis by (simp add: update_conv')
    next
      case 2
      then show ?thesis by (simp add: update_conv')
    qed
  qed
  have p2: "\<forall>u h. map_of (AList.update uid ?h (iceCandidateTimers s)) u = Some h \<longrightarrow>
      (\<exists>d. (h, d, u) \<in> set (?kept @ [(?h, now s + 50, uid)]))"
  proof (intro allI impI)
    fix u h assume m: "map_of (AList.update uid ?h (iceCandidateTimers s)) u = Some h"
    show "\<exists>d. (h, d, u) \<in> set (?kept @ [(?h, now s + 50, uid)])"
    proof (cases "u = uid")
      case True
      with m show ?thesis by (auto simp: update_conv')
    next
      case False
      with m have "map_of (iceCandidateTimers s) u = Some h" by (simp add: update_conv')
      with assms obtain d where "(h, d, u) \<in> set (timeouts s)"
        unfolding timers_ok_def by blast
      with False have "(h, d, u) \<in> set ?kept" using kept[of "(h, d, u)"] by simp
      then show ?thesis by auto
    qed
  qed
  have "distinct (map fst (timeouts s))"
    using assms by (simp add: timers_ok_def)
  then have "distinct (map fst ?kept)"
    by (rule distinct_map_filter)
  moreover have "?h \<notin> fst ` set ?kept"
    using old by fastforce
  ultimately have p3: "distinct (map fst (?kept @ [(?h, now s + 50, uid)]))"
    by simp
  from p1 p2 p3 show ?thesis
    unfolding Some timers_ok_def onicecandidate_timeouts
    by (simp only: onicecandidate_timers) 
qed

lemma onicecandidate_one_timer:
  assumes "timers_ok s"
  shows "filter (\<lambda>x. snd (snd x) = uid) (timeouts (onicecandidate uid (Some c) s))
           = [(Suc (timerSeq s), now s + 50, uid)]
    \<and> filter (\<lambda>x. snd (snd x) \<noteq> uid) (timeouts (onicecandidate uid (Some c) s))
           = filter (\<lambda>x. snd (snd x) \<noteq> uid) (timeouts s)"
proof -
  have "filter (\<lambda>x. map_of (iceCandidateTimers s) uid \<noteq> Some (fst x)) (timeouts s)
      = filter (\<lambda>x. snd (snd x) \<noteq> uid) (timeouts s)"
    using timers_ok_handle[OF assms] by (intro filter_cong) simp_all
  then show ?thesis
    by (simp add: onicecandidate_timeouts)
qed

lemma timer_view_fold_emit: "timer_view (fold (\<lambda>c. emit (f c)) cs s) = timer_view s"
  by (induction cs arbitrary: s) (simp_all add: timer_view_emit)

lemma timer_view_onIceTimer:
  "timer_view (onIceTimer uid s)
     = (timeouts s, AList.delete uid (iceCandidateTimers s), timerSeq s)"
proof -
  have "timer_view (s'\<lparr>iceCandidateQueue := q\<rparr>) = timer_view s'" for s' q
    by (simp add: timer_view_def)
  then have "timer_view (if length (queued uid s) > 0
                then (fold (\<lambda>c. emit (IceCandidateOut (roomId s) uid c)) (queued uid s) s)
                       \<lparr>iceCandidateQueue := AList.delete uid (iceCandidateQueue s)\<rparr>
                else s) = timer_view s"
    by (simp add: timer_view_fold_emit)
  then show ?thesis
    by (simp add: onIceTimer_def Let_def timer_view_def)
qed

lemma timers_ok_fire:
  assumes "timers_ok s" "x \<in> set (timeouts s)"
  shows "timers_ok (fire x s)"
proof -
  let ?ux = "snd (snd x)"
  let ?kept = "filter (\<lambda>y. fst y \<noteq> fst x) (timeouts s)"
  have v: "timeouts (fire x s) = ?kept"
    "iceCandidateTimers (fire x s) = AList.delete ?ux (iceCandidateTimers s)"
    "timerSeq (fire x s) = timerSeq s"
    using timer_view_onIceTimer[of ?ux
        "s\<lparr>timeouts := ?kept, now := max (now s) (fst (snd x))\<rparr>"]
    by (simp_all add: fire_def timer_view_def)
  have old: "y \<in> set (timeouts s) \<Longrightarrow>
      map_of (iceCandidateTimers s) (snd (snd y)) = Some (fst y) \<and> fst y \<le> timerSeq s" for y
    using assms(1) unfolding timers_ok_def by blast
  have other: "snd (snd y) \<noteq> ?ux" if "y \<in> set ?kept" for y
    using that old[of y] old[OF assms(2)] by auto
  have p1: "\<forall>y \<in> set ?kept.
      map_of (AList.delete ?ux (iceCandidateTimers s)) (snd (snd y)) = Some (fst y)
      \<and> fst y \<le> timerSeq s"
    using other old by (auto simp: delete_conv')
  have p2: "\<forall>u h. map_of (AList.delete ?ux (iceCandidateTimers s)) u = Some h \<longrightarrow>
      (\<exists>d. (h, d, u) \<in> set ?kept)"
  proof (intro allI impI)
    fix u h assume m: "map_of (AList.delete ?ux (iceCandidateTimers s)) u = Some h"
    then have ne: "u \<noteq> ?ux" and "map_of (iceCandidateTimers s) u = Some h"
      by (auto simp: delete_conv' split: if_splits)
    with assms(1) obtain d where d: "(h, d, u) \<in> set (timeouts s)"
      unfolding timers_ok_def by blast
    have "h \<noteq> fst x"
    proof
      assume "h = fst x"
      with d have "map_of (iceCandidateTimers s) ?ux = Some h"
        using old[OF assms(2)] by simp
      with timers_ok_handle[OF assms(1) d, of ?ux] ne show False
        by simp
    qed
    with d show "\<exists>d. (h, d, u) \<in> set ?kept"
      by auto
  qed
  have p3: "distinct (map fst ?kept)"
    using assms(1) by (simp add: timers_ok_def distinct_map_filter)
  from p1 p2 p3 show ?thesis
    unfolding timers_ok_def by (simp only: v) 
qed

lemma earliest_mem: "earliest ts = Some x \<Longrightarrow> x \<in> set ts"
  by (induction ts arbitrary: x) (auto split: option.splits if_splits)

lemma next_due_mem: "next_due t ts = Some x \<Longrightarrow> x \<in> set ts"
  unfolding next_due_def using earliest_mem by fastforce

lemma timers_ok_advance: "timers_ok s \<Longrightarrow> timers_ok (advance t s)"
proof (induction t s rule: advance.induct)
  case (1 t s)
  show ?case
  proof (cases "next_due t (timeouts s)")
    case None
    with "1.prems" show ?thesis
      by (subst advance.simps) (simp add: timers_ok_def)
  next
    case (Some x)
    with "1.prems" have "timers_ok (fire x s)"
      by (intro timers_ok_fire next_due_mem)
    with "1.IH"[OF Some] Some show ?thesis
      by (subst advance.simps) simp
  qed
qed

lemma timers_ok_step: "timers_ok s \<Longrightarrow> timers_ok (step eng s act)"
proof (cases act)
  case (Inbound e)
  assume "timers_ok s"
  then show ?thesis
    using timers_ok_view[OF timer_view_deliver[of eng s e]] by (simp add: Inbound step_def)
next
  case (FromPc a ev)
  assume "timers_ok s"
  then show ?thesis
    using timers_ok_view[OF timer_view_ontrack]
    by (cases ev) (simp_all add: FromPc step_def pc_fires_def timers_ok_onicecandidate)
next
  case (Call c)
  assume "timers_ok s"
  then show ?thesis
    by (cases c) (simp_all add: Call step_def timers_ok_view[OF timer_view_call(1)]
        timers_ok_view[OF timer_view_call(2)] timers_ok_view[OF timer_view_call(3)]
        timers_ok_view[OF timer_view_call(4)] timers_ok_view[OF timer_view_call(5)])
next
  case (ClockReaches t)
  assume "timers_ok s"
  then show ?thesis
    by (simp add: ClockReaches step_def timers_ok_advance)
qed

lemma timers_ok_run: "timers_ok s \<Longrightarrow> timers_ok (run eng s acts)"
  unfolding run_def by (induction acts arbitrary: s) (simp_all add: timers_ok_step)

lemma timers_ok_mount: "timers_ok (mount room uname strm)"
  by (simp add: timers_ok_def mount_def emit_def)

lemma fire_emitted:
  "emitted (fire x s) = emitted s @
     map (\<lambda>c. (max (now s) (fst (snd x)), IceCandidateOut (roomId s) (snd (snd x)) c))
       (queued (snd (snd x)) s)"
  by (simp add: fire_def onIceTimer_emitted queued_def)

lemma fire_queued: "queued (snd (snd x)) (fire x s) = []"
  by (simp add: fire_def onIceTimer_queued)

lemma fire_timeouts: "timeouts (fire x s) = filter (\<lambda>y. fst y \<noteq> fst x) (timeouts s)"
  using timer_view_onIceTimer[of "snd (snd x)"] by (simp add: fire_def timer_view_def)

lemma timers_ok_reachable: "timers_ok (run eng (mount room uname strm) acts)"
  by (intro timers_ok_run timers_ok_mount)

lemma fire_clears_peer:
  assumes "timers_ok s" "x \<in> set (timeouts s)"
  shows "filter (\<lambda>y. snd (snd y) = snd (snd x)) (timeouts (fire x s)) = []"
proof -
  have "fst y = fst x" if "y \<in> set (timeouts s)" "snd (snd y) = snd (snd x)" for y
    using that timers_ok_handle[OF assms(1) that(1), of "snd (snd x)"]
      timers_ok_handle[OF assms, of "snd (snd x)"] by simp
  then show ?thesis
    by (auto simp: fire_timeouts filter_empty_conv)
qed

lemma earliest_None: "earliest ts = None \<longleftrightarrow> ts = []"
  by (induction ts) (auto split: option.splits)

lemma next_due_None: "next_due t ts = None \<longleftrightarrow> (\<forall>x \<in> set ts. t < fst (snd x))"
  by (auto simp: next_due_def earliest_None filter_empty_conv not_le)

lemma roomId_fold_emit: "roomId (fold (\<lambda>c. emit (f c)) cs s) = roomId s"
  by (induction cs arbitrary: s) (simp_all add: emit_def)

lemma fire_roomId: "roomId (fire x s) = roomId s"
  by (simp add: fire_def onIceTimer_def Let_def roomId_fold_emit)

lemma fire_queued_other: "u \<noteq> snd (snd x) \<Longrightarrow> queued u (fire x s) = queued u s"
  by (simp add: fire_def onIceTimer_queued_other) (simp add: queued_def)

text \<open>A pending timeout of another peer survives the firing of \<open>x\<close>.\<close>

lemma fire_keeps_other:
  assumes "timers_ok s" "x \<in> set (timeouts s)" "(h, d, u) \<in> set (timeouts s)" "u \<noteq> snd (snd x)"
  shows "(h, d, u) \<in> set (timeouts (fire x s))"
proof -
  have "h \<noteq> fst x"
  proof
    assume "h = fst x"
    with timers_ok_handle[OF assms(1,3), of u] have "map_of (iceCandidateTimers s) u = Some (fst x)"
      by simp
    with timers_ok_handle[OF assms(1,2), of u] assms(4) show False
      by simp
  qed
  with assms(3) show ?thesis
    by (simp add: fire_timeouts)
qed

lemma advance_flushes:
  "timers_ok s \<Longrightarrow> queued u s = [] \<or> (\<exists>h d. (h, d, u) \<in> set (timeouts s) \<and> d \<le> t)
     \<Longrightarrow> queued u (advance t s) = []"
proof (induction t s rule: advance.induct)
  case (1 t s)
  show ?case
  proof (cases "next_due t (timeouts s)")
    case None
    then have "\<forall>x \<in> set (timeouts s). t < fst (snd x)"
      by (simp add: next_due_None)
    with "1.prems"(2) have "queued u s = []"
      by fastforce
    with None show ?thesis
      by (subst advance.simps) (simp add: queued_def)
  next
    case (Some x)
    then have x: "x \<in> set (timeouts s)"
      by (rule next_due_mem)
    with "1.prems"(1) have ok: "timers_ok (fire x s)"
      by (intro timers_ok_fire)
    have "queued u (fire x s) = [] \<or> (\<exists>h d. (h, d, u) \<in> set (timeouts (fire x s)) \<and> d \<le> t)"
    proof (cases "u = snd (snd x)")
      case True
      then show ?thesis by (simp add: fire_queued)
    next
      case False
      with "1.prems"(2) show ?thesis
        using fire_keeps_other[OF "1.prems"(1) x _ False] fire_queued_other[OF False, of s]
        by auto
    qed
    with "1.IH"[OF Some ok] Some show ?thesis
      by (subst advance.simps) simp
  qed
qed

lemma advance_sends:
  "timers_ok s \<Longrightarrow>
   (\<exists>\<tau>. (\<tau>, IceCandidateOut (roomId s) u c) \<in> set (emitted s))
     \<or> (c \<in> set (queued u s) \<and> (\<exists>h d. (h, d, u) \<in> set (timeouts s) \<and> d \<le> t))
   \<Longrightarrow> \<exists>\<tau>. (\<tau>, IceCandidateOut (roomId s) u c) \<in> set (emitted (advance t s))"
proof (induction t s rule: advance.induct)
  case (1 t s)
  show ?case
  proof (cases "next_due t (timeouts s)")
    case None
    then have "\<forall>x \<in> set (timeouts s). t < fst (snd x)"
      by (simp add: next_due_None)
    with "1.prems"(2) have "\<exists>\<tau>. (\<tau>, IceCandidateOut (roomId s) u c) \<in> set (emitted s)"
      by fastforce
    with None show ?thesis
      by (subst advance.simps) simp
  next
    case (Some x)
    then have x: "x \<in> set (timeouts s)"
      by (rule next_due_mem)
    with "1.prems"(1) have ok: "timers_ok (fire x s)"
      by (intro timers_ok_fire)
    have "(\<exists>\<tau>. (\<tau>, IceCandidateOut (roomId s) u c) \<in> set (emitted (fire x s)))
      \<or> (c \<in> set (queued u (fire x s))
          \<and> (\<exists>h d. (h, d, u) \<in> set (timeouts (fire x s)) \<and> d \<le> t))"
    proof (cases "\<exists>\<tau>. (\<tau>, IceCandidateOut (roomId s) u c) \<in> set (emitted s)")
      case True
      then show ?thesis by (auto simp: fire_emitted)
    next
      case unsent: False
      with "1.prems"(2) have c: "c \<in> set (queued u s)"
        and pending: "\<exists>h d. (h, d, u) \<in> set (timeouts s) \<and> d \<le> t"
        by auto
      show ?thesis
      proof (cases "u = snd (snd x)")
        case True
        with c have "(max (now s) (fst (snd x)), IceCandidateOut (roomId s) u c)
            \<in> set (emitted (fire x s))"
          by (simp add: fire_emitted)
        then show ?thesis by blast
      next
        case False
        from pending obtain h d where hd: "(h, d, u) \<in> set (timeouts s)" "d \<le> t"
          by blast
        from fire_keeps_other[OF "1.prems"(1) x hd(1) False]
        have "(h, d, u) \<in> set (timeouts (fire x s))" .
        moreover have "c \<in> set (queued u (fire x s))"
          using c fire_queued_other[OF False, of s] by simp
        ultimately show ?thesis
          using hd(2) by blast
      qed
    qed
    then have "\<exists>\<tau>. (\<tau>, IceCandidateOut (roomId (fire x s)) u c)
        \<in> set (emitted (advance t (fire x s)))"
      using "1.IH"[OF Some ok] by (simp add: fire_roomId)
    with Some show ?thesis
      by (subst advance.simps) (simp add: fire_roomId)
  qed
qed

lemma advance_fires_due: "\<forall>x \<in> set (timeouts (advance t s)). t < fst (snd x)"
proof (induction t s rule: advance.induct)
  case (1 t s)
  show ?case
  proof (cases "next_due t (timeouts s)")
    case None
    then have "\<forall>x \<in> set (timeouts s). t < fst (snd x)"
      by (simp add: next_due_None)
    with None show ?thesis
      by (subst advance.simps) simp
  next
    case (Some x)
    with "1.IH" show ?thesis
      by (subst advance.simps) simp
  qed
qed

lemma onicecandidate_roomId: "roomId (onicecandidate uid cand s) = roomId s"
  by (simp add: onicecandidate_def Let_def setTimeout_def clearTimeout_def split: option.splits)

text \<open>
  C4. In every state reached from the mounted hook, a gathered candidate is appended to
  its peer's queue, sends nothing, and leaves exactly one pending timeout for that peer, due
  50 ms from now, the timeouts of other peers untouched; when a pending timeout fires, every
  candidate queued for its peer is sent, the peer's queue is empty and the peer has no
  pending timeout. If nothing else happens until the clock has reached that deadline, every
  candidate queued for the peer has been sent, its queue is empty, and no timeout due by
  then is pending. With candidates 1, 2, 3 at 0, 10 and 70 ms the socket trace shows two
  flushes: 1 and 2 at 60 ms, 3 at 120 ms.
\<close>

theorem ice_debounce:
  "let s = run eng (mount room uname strm) acts; s' = onicecandidate uid (Some c) s in
     queued uid s' = queued uid s @ [c]
     \<and> (\<forall>u. u \<noteq> uid \<longrightarrow> queued u s' = queued u s)
     \<and> emitted s' = emitted s
     \<and> filter (\<lambda>x. snd (snd x) = uid) (timeouts s') = [(Suc (timerSeq s), now s + 50, uid)]
     \<and> filter (\<lambda>x. snd (snd x) \<noteq> uid) (timeouts s')
         = filter (\<lambda>x. snd (snd x) \<noteq> uid) (timeouts s)
     \<and> (\<forall>x \<in> set (timeouts s).
          emitted (fire x s) = emitted s @
            map (\<lambda>c. (max (now s) (fst (snd x)), IceCandidateOut (roomId s) (snd (snd x)) c))
              (queued (snd (snd x)) s)
          \<and> queued (snd (snd x)) (fire x s) = []
          \<and> filter (\<lambda>y. snd (snd y) = snd (snd x)) (timeouts (fire x s)) = [])
     \<and> (\<forall>t. now s + 50 \<le> t \<longrightarrow>
          queued uid (advance t s') = []
          \<and> (\<forall>c' \<in> set (queued uid s').
                \<exists>\<tau>. (\<tau>, IceCandidateOut (roomId s) uid c') \<in> set (emitted (advance t s')))
          \<and> (\<forall>x \<in> set (timeouts (advance t s')). t < fst (snd x)))
     \<and> emitted (run accepting mounted ice_scenario) =
         [(0, JoinRoomOut ''room'' ''me''), (0, OfferOut ''room'' ''p'' 0 ''Pat''),
          (60, IceCandidateOut ''room'' ''p'' 1), (60, IceCandidateOut ''room'' ''p'' 2),
          (120, IceCandidateOut ''room'' ''p'' 3)]
     \<and> timeouts (run accepting mounted ice_scenario) = []"
proof -
  define s where "s = run eng (mount room uname strm) acts"
  have ok: "timers_ok s"
    unfolding s_def by (rule timers_ok_reachable)
  have scenario: "emitted (run accepting mounted ice_scenario) =
         [(0, JoinRoomOut ''room'' ''me''), (0, OfferOut ''room'' ''p'' 0 ''Pat''),
          (60, IceCandidateOut ''room'' ''p'' 1), (60, IceCandidateOut ''room'' ''p'' 2),
          (120, IceCandidateOut ''room'' ''p'' 3)]"
    by code_simp
  have drained: "timeouts (run accepting mounted ice_scenario) = []"
    by code_simp
  have expiry: "\<forall>x \<in> set (timeouts s).
          emitted (fire x s) = emitted s @
            map (\<lambda>c. (max (now s) (fst (snd x)), IceCandidateOut (roomId s) (snd (snd x)) c))
              (queued (snd (snd x)) s)
          \<and> queued (snd (snd x)) (fire x s) = []
          \<and> filter (\<lambda>y. snd (snd y) = snd (snd x)) (timeouts (fire x s)) = []"
    using fire_clears_peer[OF ok] by (simp add: fire_emitted fire_queued)
  define s' where "s' = onicecandidate uid (Some c) s"
  have ok': "timers_ok s'"
    unfolding s'_def using ok by (rule timers_ok_onicecandidate)
  have armed: "(Suc (timerSeq s), now s + 50, uid) \<in> set (timeouts s')"
    by (simp add: s'_def onicecandidate_timeouts)
  have room: "roomId s' = roomId s"
    by (simp add: s'_def onicecandidate_roomId)
  have later: "\<forall>t. now s + 50 \<le> t \<longrightarrow>
          queued uid (advance t s') = []
          \<and> (\<forall>c' \<in> set (queued uid s').
                \<exists>\<tau>. (\<tau>, IceCandidateOut (roomId s) uid c') \<in> set (emitted (advance t s')))
          \<and> (\<forall>x \<in> set (timeouts (advance t s')). t < fst (snd x))"
  proof (intro allI impI conjI ballI)
    fix t assume "now s + 50 \<le> t"
    with armed have due: "\<exists>h d. (h, d, uid) \<in> set (timeouts s') \<and> d \<le> t"
      by blast
    then show "queued uid (advance t s') = []"
      using advance_flushes[OF ok', of uid t] by blast
    show "t < fst (snd x)" if "x \<in> set (timeouts (advance t s'))" for x
      using that advance_fires_due[of t s'] by blast
    show "\<exists>\<tau>. (\<tau>, IceCandidateOut (roomId s) uid c') \<in> set (emitted (advance t s'))"
      if "c' \<in> set (queued uid s')" for c'
      using that due advance_sends[OF ok', of uid c' t] unfolding room by blast
  qed
  have first: "queued uid s' = queued uid s @ [c]
     \<and> (\<forall>u. u \<noteq> uid \<longrightarrow> queued u s' = queued u s)
     \<and> emitted s' = emitted s
     \<and> filter (\<lambda>x. snd (snd x) = uid) (timeouts s') = [(Suc (timerSeq s), now s + 50, uid)]
     \<and> filter (\<lambda>x. snd (snd x) \<noteq> uid) (timeouts s')
         = filter (\<lambda>x. snd (snd x) \<noteq> uid) (timeouts s)"
    unfolding s'_def using onicecandidate_one_timer[OF ok, of uid c]
    by (simp add: onicecandidate_queued onicecandidate_emitted)
  from first expiry later scenario drained show ?thesis
    unfolding Let_def s_def[symmetric] s'_def[symmetric] by (intro conjI) (elim conjE, assumption)+
qed

theorem ice_debounce_witness:
  "timeouts (run accepting mounted
      [Inbound (UserJoined (user ''p'' ''Pat'')), FromPc 0 (IceCandidateEvent (Some 1))])
     = [(1, 50, ''p'')]
   \<and> queued ''p'' (onicecandidate ''p'' (Some 2) (run accepting mounted
        [Inbound (UserJoined (user ''p'' ''Pat'')), FromPc 0 (IceCandidateEvent (Some 1))]))
       = [1, 2]
   \<and> filter (\<lambda>x. snd (snd x) = ''p'') (timeouts (onicecandidate ''p'' (Some 2)
        (run accepting mounted
           [Inbound (UserJoined (user ''p'' ''Pat'')), FromPc 0 (IceCandidateEvent (Some 1))])))
       = [(2, 50, ''p'')]
   \<and> queued ''q'' (onicecandidate ''p'' (Some 2) (run accepting mounted
        [Inbound (UserJoined (user ''p'' ''Pat'')), FromPc 0 (IceCandidateEvent (Some 1))]))
       = []
   \<and> queued ''p'' (fire (1, 50, ''p'') (run accepting mounted
        [Inbound (UserJoined (user ''p'' ''Pat'')), FromPc 0 (IceCandidateEvent (Some 1))]))
       = []
   \<and> queued ''p'' (advance 50 (onicecandidate ''p'' (Some 2) (run accepting mounted
        [Inbound (UserJoined (user ''p'' ''Pat'')), FromPc 0 (IceCandidateEvent (Some 1))])))
       = []"
proof -
  let ?acts = "[Inbound (UserJoined (user ''p'' ''Pat'')), FromPc 0 (IceCandidateEvent (Some 1))]"
  let ?s = "run accepting mounted ?acts"
  have t: "timeouts ?s = [(1, 50, ''p'')]" by code_simp
  have q: "queued ''p'' ?s = [1]" "queued ''q'' ?s = []" by code_simp+
  have n: "timerSeq ?s = 1" "now ?s = 0" by code_simp+
  have m: "(1, 50, ''p'') \<in> set (timeouts ?s)"
    unfolding t by simp
  have d: "''q'' \<noteq> ''p''"
    by simp
  note inst = ice_debounce[of accepting "''room''" "''me''" mic_and_camera ?acts "''p''" 2,
      unfolded Let_def mounted_def[symmetric]]
  from inst have appended: "queued ''p'' (onicecandidate ''p'' (Some 2) ?s) = queued ''p'' ?s @ [2]"
    by (elim conjE)
  from inst have armed: "filter (\<lambda>x. snd (snd x) = ''p'') (timeouts (onicecandidate ''p'' (Some 2) ?s))
      = [(Suc (timerSeq ?s), now ?s + 50, ''p'')]"
    by (elim conjE)
  from inst have "\<forall>u. u \<noteq> ''p'' \<longrightarrow> queued u (onicecandidate ''p'' (Some 2) ?s) = queued u ?s"
    by (elim conjE)
  with d have others: "queued ''q'' (onicecandidate ''p'' (Some 2) ?s) = queued ''q'' ?s"
    by (elim allE impE) 
  from inst have "\<forall>x \<in> set (timeouts ?s).
          emitted (fire x ?s) = emitted ?s @
            map (\<lambda>c. (max (now ?s) (fst (snd x)), IceCandidateOut (roomId ?s) (snd (snd x)) c))
              (queued (snd (snd x)) ?s)
          \<and> queued (snd (snd x)) (fire x ?s) = []
          \<and> filter (\<lambda>y. snd (snd y) = snd (snd x)) (timeouts (fire x ?s)) = []"
    by (elim conjE)
  from bspec[OF this m] have flushed: "queued ''p'' (fire (1, 50, ''p'') ?s) = []"
    by simp
  from inst have later: "\<forall>t. now ?s + 50 \<le> t \<longrightarrow>
          queued ''p'' (advance t (onicecandidate ''p'' (Some 2) ?s)) = []
          \<and> (\<forall>c' \<in> set (queued ''p'' (onicecandidate ''p'' (Some 2) ?s)).
                \<exists>\<tau>. (\<tau>, IceCandidateOut (roomId ?s) ''p'' c')
                  \<in> set (emitted (advance t (onicecandidate ''p'' (Some 2) ?s))))
          \<and> (\<forall>x \<in> set (timeouts (advance t (onicecandidate ''p'' (Some 2) ?s))).
                t < fst (snd x))"
    by (elim conjE)
  have "now ?s + 50 \<le> 50"
    by (simp only: n)
  from later[rule_format, OF this]
  have quiet: "queued ''p'' (advance 50 (onicecandidate ''p'' (Some 2) ?s)) = []"
    by (rule conjunct1)
  show ?thesis
    by (simp only: appended armed others flushed quiet t q n) simp
qed

section \<open>Peer connections\<close>

lemma peers_ok_view: "peer_view s' = peer_view s \<Longrightarrow> peers_ok s' = peers_ok s"
  by (simp add: peer_view_def peers_ok_def)

lemma peer_view_emit: "peer_view (emit m s) = peer_view s"
  by (simp add: peer_view_def emit_def)

lemma peer_view_fold_emit: "peer_view (fold (\<lambda>c. emit (f c)) cs s) = peer_view s"
  by (induction cs arbitrary: s) (simp_all add: peer_view_emit)

lemma peer_view_add_participant: "peer_view (add_participant uid uname s) = peer_view s"
  by (simp add: peer_view_def add_participant_def)

lemma peer_view_onIceTimer: "peer_view (onIceTimer uid s) = peer_view s"
proof -
  have "peer_view (s'\<lparr>iceCandidateQueue := q\<rparr>) = peer_view s'"
    and "peer_view (s'\<lparr>iceCandidateTimers := ts\<rparr>) = peer_view s'" for s' q ts
    by (simp_all add: peer_view_def)
  then show ?thesis
    by (simp add: onIceTimer_def Let_def peer_view_fold_emit)
qed

lemma peer_view_onicecandidate: "peer_view (onicecandidate uid cand s) = peer_view s"
  by (simp add: peer_view_def onicecandidate_def Let_def setTimeout_def clearTimeout_def
      split: option.splits)

lemma peer_view_pc_fires: "peer_view (pc_fires a ev s) = peer_view s"
  by (simp add: pc_fires_def peer_view_onicecandidate split: pc_event.splits)
    (simp add: peer_view_def ontrack_def)

lemma peer_view_fire: "peer_view (fire x s) = peer_view s"
  by (simp add: fire_def peer_view_onIceTimer) (simp add: peer_view_def)

lemma peer_view_advance: "peer_view (advance t s) = peer_view s"
proof (induction t s rule: advance.induct)
  case (1 t s)
  show ?case
  proof (cases "next_due t (timeouts s)")
    case None
    then show ?thesis by (subst advance.simps) (simp add: peer_view_def)
  next
    case (Some x)
    with "1.IH" show ?thesis by (subst advance.simps) (simp add: peer_view_fire)
  qed
qed

lemma peer_view_plain:
  "peer_view (admitUser uid s) = peer_view s"
  "peer_view (rejectUser uid s) = peer_view s"
  "peer_view (toggleMediaStatus k isOn s) = peer_view s"
  "peer_view (emitScreenShareStatus isSharing s) = peer_view s"
  "peer_view (on_waiting_for_approval s) = peer_view s"
  "peer_view (on_join_approved s) = peer_view s"
  "peer_view (on_join_rejected s) = peer_view s"
  "peer_view (on_existing_users users s) = peer_view s"
  "peer_view (on_join_request data s) = peer_view s"
  "peer_view (on_media_status_update uid k isOn s) = peer_view s"
  by (simp_all add: peer_view_def admitUser_def rejectUser_def toggleMediaStatus_def
      emitScreenShareStatus_def emit_def Let_def on_join_request_def playNotificationSound_def
      on_media_status_update_def on_waiting_for_approval_def on_join_approved_def
      on_join_rejected_def on_existing_users_def)

text \<open>Writes to a connection that keep its owner and leave it open.\<close>

lemma peers_ok_update_pc:
  assumes "peers_ok s" "\<And>c. owner (f c) = owner c \<and> pc_closed (f c) = pc_closed c"
  shows "peers_ok (update_pc a f s)"
proof -
  have same: "pc_closed ((connections s)[a := f (connections s ! a)] ! b) = pc_closed (connections s ! b)
      \<and> owner ((connections s)[a := f (connections s ! a)] ! b) = owner (connections s ! b)"
    if "b < length (connections s)" for b
    using that by (cases "b = a") (simp_all add: assms(2))
  with assms(1) show ?thesis
    unfolding peers_ok_def update_pc_def by simp
qed

lemma peers_update_pc: "peers (update_pc a f s) = peers s"
  by (simp add: update_pc_def)

lemma peers_ok_createPeerConnection:
  assumes "peers_ok s"
  shows "peers_ok (createPeerConnection eng uid uname ini strm s)"
proof (cases "map_of (peers s) uid")
  case (Some a)
  with assms show ?thesis by (simp add: createPeerConnection_def)
next
  case None
  let ?pc = "\<lparr>owner = uid, getSenders = addTracks strm, localDescription = None,
      remoteDescription = None, remoteCandidates = [], pc_closed = False\<rparr>"
  let ?s1 = "s\<lparr>connections := connections s @ [?pc],
      peers := AList.update uid (length (connections s)) (peers s)\<rparr>"
  from None have fresh: "uid \<notin> fst ` set (peers s)"
    by (simp add: map_of_eq_None_iff)
  have upd': "AList.update k v ps = ps @ [(k, v)]" if "k \<notin> fst ` set ps" for k :: string and v :: nat and ps
    using that by (induction ps) auto
  have s1: "peers_ok ?s1"
    using assms fresh unfolding peers_ok_def
    by (auto simp: upd'[OF fresh] nth_append less_Suc_eq)
  have "peers_ok (emit m (update_pc a (\<lambda>c. c\<lparr>localDescription := Some d\<rparr>) ?s1))" for m a d
    using peers_ok_update_pc[OF s1, of "\<lambda>c. c\<lparr>localDescription := Some d\<rparr>" a]
      peers_ok_view[OF peer_view_emit] by simp
  with s1 None show ?thesis
    by (simp add: createPeerConnection_def Let_def split: option.splits)
qed

lemma peer_view_playNotificationSound: "peer_view (playNotificationSound s) = peer_view s"
  by (simp add: peer_view_def playNotificationSound_def)

lemma peers_ok_on_user_joined:
  assumes "peers_ok s"
  shows "peers_ok (on_user_joined eng data s)"
proof -
  have "peers_ok (add_participant (userId data) (userName data) (playNotificationSound s))"
    using assms
    by (simp add: peers_ok_view[OF peer_view_add_participant]
        peers_ok_view[OF peer_view_playNotificationSound])
  then show ?thesis
    unfolding on_user_joined_def Let_def by (rule peers_ok_createPeerConnection)
qed

lemma peers_ok_on_offer:
  assumes "peers_ok s"
  shows "peers_ok (on_offer eng from offer uname s)"
proof -
  define s2 where "s2 = (if map_of (peers (add_participant from uname s)) from = None
             then createPeerConnection eng from uname False
                    (localStream (add_participant from uname s)) (add_participant from uname s)
             else add_participant from uname s)"
  have "peers_ok (add_participant from uname s)"
    using assms by (simp add: peers_ok_view[OF peer_view_add_participant])
  then have s2: "peers_ok s2"
    by (simp add: s2_def peers_ok_createPeerConnection)
  have s3: "peers_ok (update_pc a (\<lambda>c. c\<lparr>remoteDescription := Some offer\<rparr>) s2)" for a
    using s2 by (rule peers_ok_update_pc) simp
  have s4: "peers_ok (emit m (update_pc a (\<lambda>c. c\<lparr>localDescription := Some d\<rparr>)
      (update_pc a (\<lambda>c. c\<lparr>remoteDescription := Some offer\<rparr>) s2)))" for m a d
    using peers_ok_update_pc[OF s3, of "\<lambda>c. c\<lparr>localDescription := Some d\<rparr>" a a]
    by (simp add: peers_ok_view[OF peer_view_emit])
  show ?thesis
    unfolding on_offer_def Let_def s2_def[symmetric] using s2 s3 s4
    by (simp split: option.splits)
qed

lemma peers_ok_on_answer: "peers_ok s \<Longrightarrow> peers_ok (on_answer eng from answer s)"
  by (simp add: on_answer_def peers_ok_update_pc split: option.splits)

lemma peers_ok_on_ice_candidate: "peers_ok s \<Longrightarrow> peers_ok (on_ice_candidate eng from cand s)"
  by (simp add: on_ice_candidate_def peers_ok_update_pc split: option.splits)

lemma peers_ok_replaceTrack: "peers_ok s \<Longrightarrow> peers_ok (replaceTrack eng newTrack s)"
proof -
  have "peers_ok s' \<Longrightarrow> set ps \<subseteq> set (peers s') \<Longrightarrow>
      peers_ok (fold (\<lambda>(uid, a). update_pc a
             (\<lambda>pc. pc\<lparr>getSenders := replace_first eng newTrack (getSenders pc)\<rparr>)) ps s')" for ps s'
  proof (induction ps arbitrary: s')
    case Nil
    then show ?case by simp
  next
    case (Cons x ps)
    obtain uid a where x: "x = (uid, a)" by (cases x)
    let ?s1 = "update_pc a (\<lambda>pc. pc\<lparr>getSenders := replace_first eng newTrack (getSenders pc)\<rparr>) s'"
    have "peers_ok ?s1"
      using Cons.prems(1) by (rule peers_ok_update_pc) simp
    moreover have "set ps \<subseteq> set (peers ?s1)"
      using Cons.prems(2) by (simp add: peers_update_pc)
    ultimately show ?case
      using Cons.IH[of ?s1] by (simp add: x)
  qed
  from this[of s "peers s"] show "peers_ok s \<Longrightarrow> peers_ok (replaceTrack eng newTrack s)"
    by (simp add: replaceTrack_def)
qed

lemma peers_ok_on_user_left:
  assumes "peers_ok s"
  shows "peers_ok (on_user_left data s)"
proof (cases "map_of (peers s) (userId data)")
  case None
  with assms show ?thesis
    by (simp add: on_user_left_def peers_ok_def)
next
  case (Some a)
  let ?u = "userId data"
  let ?cs = "(connections s)[a := (connections s ! a)\<lparr>pc_closed := True\<rparr>]"
  from assms have dist: "distinct (map fst (peers s))"
    and mapped: "\<And>x. x \<in> set (peers s) \<Longrightarrow> snd x < length (connections s)
            \<and> \<not> pc_closed (connections s ! snd x) \<and> owner (connections s ! snd x) = fst x"
    and opened: "\<And>b. b < length (connections s) \<Longrightarrow> \<not> pc_closed (connections s ! b)
            \<Longrightarrow> (owner (connections s ! b), b) \<in> set (peers s)"
    unfolding peers_ok_def by blast+
  from Some have ua: "(?u, a) \<in> set (peers s)"
    by (rule map_of_SomeD)
  with mapped[of "(?u, a)"] have a: "a < length (connections s)" "owner (connections s ! a) = ?u"
    by simp_all
  have v: "peers (on_user_left data s) = AList.delete ?u (peers s)"
    "connections (on_user_left data s) = ?cs"
    using Some by (simp_all add: on_user_left_def update_pc_def)
  have delete_eq: "set (AList.delete k al) = {x \<in> set al. fst x \<noteq> k}"
    for k :: string and al :: "(string \<times> nat) list"
    by (induction al) auto
  have p1: "distinct (map fst (AList.delete ?u (peers s)))"
    using dist by (rule distinct_delete)
  have p2: "\<forall>x \<in> set (AList.delete ?u (peers s)).
      snd x < length ?cs \<and> \<not> pc_closed (?cs ! snd x) \<and> owner (?cs ! snd x) = fst x"
  proof
    fix x assume "x \<in> set (AList.delete ?u (peers s))"
    then have x: "x \<in> set (peers s)" "fst x \<noteq> ?u"
      by (simp_all add: delete_eq)
    with mapped[of x] a have "snd x \<noteq> a" by auto
    with mapped[OF x(1)] show "snd x < length ?cs \<and> \<not> pc_closed (?cs ! snd x)
        \<and> owner (?cs ! snd x) = fst x"
      by simp
  qed
  have p3: "\<forall>b < length ?cs. \<not> pc_closed (?cs ! b) \<longrightarrow>
      (owner (?cs ! b), b) \<in> set (AList.delete ?u (peers s))"
  proof (intro allI impI)
    fix b assume b: "b < length ?cs" "\<not> pc_closed (?cs ! b)"
    then have ne: "b \<noteq> a" using a by auto
    with b have m: "(owner (connections s ! b), b) \<in> set (peers s)"
      using opened[of b] by simp
    have "owner (connections s ! b) \<noteq> ?u"
    proof
      assume "owner (connections s ! b) = ?u"
      with m ua dist have "b = a" by (metis eq_key_imp_eq_value)
      with ne show False by simp
    qed
    with m ne show "(owner (?cs ! b), b) \<in> set (AList.delete ?u (peers s))"
      by (simp add: delete_eq)
  qed
  from p1 p2 p3 show ?thesis
    unfolding peers_ok_def by (simp only: v)
qed

lemma peers_ok_step: "peers_ok s \<Longrightarrow> peers_ok (step eng s act)"
proof (cases act)
  case (Inbound e)
  assume "peers_ok s"
  then show ?thesis
    by (cases e)
      (simp_all add: Inbound step_def deliver_def peers_ok_on_user_joined peers_ok_on_offer
        peers_ok_on_answer peers_ok_on_ice_candidate peers_ok_on_user_left
        peers_ok_view[OF peer_view_plain(5)] peers_ok_view[OF peer_view_plain(6)]
        peers_ok_view[OF peer_view_plain(7)] peers_ok_view[OF peer_view_plain(8)]
        peers_ok_view[OF peer_view_plain(9)] peers_ok_view[OF peer_view_plain(10)])
next
  case (FromPc a ev)
  assume "peers_ok s"
  then show ?thesis
    by (simp add: FromPc step_def peers_ok_view[OF peer_view_pc_fires])
next
  case (Call c)
  assume "peers_ok s"
  then show ?thesis
    by (cases c)
      (simp_all add: Call step_def peers_ok_replaceTrack peers_ok_view[OF peer_view_plain(1)]
        peers_ok_view[OF peer_view_plain(2)] peers_ok_view[OF peer_view_plain(3)]
        peers_ok_view[OF peer_view_plain(4)])
next
  case (ClockReaches t)
  assume "peers_ok s"
  then show ?thesis
    by (simp add: ClockReaches step_def peers_ok_view[OF peer_view_advance])
qed

lemma peers_ok_run: "peers_ok s \<Longrightarrow> peers_ok (run eng s acts)"
  unfolding run_def by (induction acts arbitrary: s) (simp_all add: peers_ok_step)

lemma peers_ok_reachable: "peers_ok (run eng (mount room uname strm) acts)"
  by (rule peers_ok_run) (simp add: peers_ok_def mount_def emit_def)

lemma filter_at_most_one:
  assumes "\<And>i j. i < length xs \<Longrightarrow> j < length xs \<Longrightarrow> P (xs ! i) \<Longrightarrow> P (xs ! j) \<Longrightarrow> i = j"
  shows "length (filter P xs) \<le> 1"
  using assms
proof (induction xs)
  case Nil
  then show ?case by simp
next
  case (Cons x xs)
  have rest: "\<And>i j. i < length xs \<Longrightarrow> j < length xs \<Longrightarrow> P (xs ! i) \<Longrightarrow> P (xs ! j) \<Longrightarrow> i = j"
    using Cons.prems[of "Suc i" "Suc j" for i j] by simp
  show ?case
  proof (cases "P x")
    case False
    with Cons.IH[OF rest] show ?thesis by simp
  next
    case True
    have "\<not> P y" if "y \<in> set xs" for y
    proof
      assume "P y"
      from that obtain j where "j < length xs" "xs ! j = y" by (auto simp: in_set_conv_nth)
      with Cons.prems[of 0 "Suc j"] True \<open>P y\<close> show False by simp
    qed
    then have "filter P xs = []" by (simp add: filter_empty_conv)
    with True show ?thesis by simp
  qed
qed

lemma one_open_connection:
  assumes "peers_ok s"
  shows "length (filter (\<lambda>pc. owner pc = uid \<and> \<not> pc_closed pc) (connections s)) \<le> 1"
proof (rule filter_at_most_one)
  fix i j
  assume "i < length (connections s)" "j < length (connections s)"
    and "owner (connections s ! i) = uid \<and> \<not> pc_closed (connections s ! i)"
    and "owner (connections s ! j) = uid \<and> \<not> pc_closed (connections s ! j)"
  with assms have "(uid, i) \<in> set (peers s)" "(uid, j) \<in> set (peers s)"
    unfolding peers_ok_def by metis+
  moreover from assms have "distinct (map fst (peers s))"
    by (simp add: peers_ok_def)
  ultimately show "i = j"
    by (metis eq_key_imp_eq_value)
qed

lemma peers_emit: "peers (emit m s) = peers s"
  by (simp add: emit_def)

lemma connections_emit: "connections (emit m s) = connections s"
  by (simp add: emit_def)

lemma createPeerConnection_known:
  "map_of (peers s) uid \<noteq> None \<Longrightarrow> createPeerConnection eng uid uname ini strm s = s"
  by (simp add: createPeerConnection_def)

lemma createPeerConnection_new:
  assumes "map_of (peers s) uid = None"
  shows "peers (createPeerConnection eng uid uname ini strm s)
           = AList.update uid (length (connections s)) (peers s)"
    and "length (connections (createPeerConnection eng uid uname ini strm s))
           = Suc (length (connections s))"
    and "getSenders (connections (createPeerConnection eng uid uname ini strm s)
           ! length (connections s)) = addTracks strm"
    and "owner (connections (createPeerConnection eng uid uname ini strm s)
           ! length (connections s)) = uid"
    and "\<not> pc_closed (connections (createPeerConnection eng uid uname ini strm s)
           ! length (connections s))"
  using assms
  by (simp_all add: createPeerConnection_def Let_def peers_emit connections_emit update_pc_def
      split: option.splits)

lemma createPeerConnection_mapped:
  "map_of (peers (createPeerConnection eng uid uname ini strm s)) uid \<noteq> None"
proof (cases "map_of (peers s) uid")
  case None
  then show ?thesis
    by (simp add: createPeerConnection_new(1) update_conv')
next
  case (Some a)
  then show ?thesis
    by (simp add: createPeerConnection_known)
qed

text \<open>
  C5. In every state reached from the mounted hook: \<open>createPeerConnection\<close> for a peer id
  that has a connection returns the state as it is; calling it again after any call changes
  nothing, whatever the other arguments; for a peer id without a connection it adds one
  connection, mapped to that id, whose senders are the tracks of the given stream, once
  each. No peer id is mapped twice and no peer id owns more than one open connection, before
  and after the call.
\<close>

theorem createPeerConnection_idempotent:
  "let s = run eng (mount room uname strm) acts;
       s1 = createPeerConnection eng uid pname ini pstrm s
   in (map_of (peers s) uid \<noteq> None \<longrightarrow> s1 = s)
      \<and> createPeerConnection eng uid pname2 ini2 pstrm2 s1 = s1
      \<and> (map_of (peers s) uid = None \<longrightarrow>
           map_of (peers s1) uid = Some (length (connections s))
           \<and> length (connections s1) = Suc (length (connections s))
           \<and> getSenders (connections s1 ! length (connections s)) = addTracks pstrm)
      \<and> distinct (map fst (peers s)) \<and> distinct (map fst (peers s1))
      \<and> length (filter (\<lambda>pc. owner pc = u \<and> \<not> pc_closed pc) (connections s)) \<le> 1
      \<and> length (filter (\<lambda>pc. owner pc = u \<and> \<not> pc_closed pc) (connections s1)) \<le> 1"
proof -
  define s where "s = run eng (mount room uname strm) acts"
  define s1 where "s1 = createPeerConnection eng uid pname ini pstrm s"
  have ok: "peers_ok s"
    unfolding s_def by (rule peers_ok_reachable)
  then have ok1: "peers_ok s1"
    unfolding s1_def by (rule peers_ok_createPeerConnection)
  have known: "map_of (peers s) uid \<noteq> None \<longrightarrow> s1 = s"
    by (simp add: s1_def createPeerConnection_known)
  have again: "createPeerConnection eng uid pname2 ini2 pstrm2 s1 = s1"
    unfolding s1_def by (rule createPeerConnection_known) (rule createPeerConnection_mapped)
  have new: "map_of (peers s) uid = None \<longrightarrow>
           map_of (peers s1) uid = Some (length (connections s))
           \<and> length (connections s1) = Suc (length (connections s))
           \<and> getSenders (connections s1 ! length (connections s)) = addTracks pstrm"
    by (simp add: s1_def createPeerConnection_new update_conv')
  from ok ok1 have d: "distinct (map fst (peers s))" "distinct (map fst (peers s1))"
    by (simp_all add: peers_ok_def)
  show ?thesis
    unfolding Let_def s_def[symmetric] s1_def[symmetric]
    using known again new d one_open_connection[OF ok, of u] one_open_connection[OF ok1, of u]
    by simp
qed

theorem createPeerConnection_idempotent_witness:
  "map_of (peers (run accepting (mount ''room'' ''me'' mic_and_camera)
       [Inbound (UserJoined (user ''p'' ''Pat''))])) ''p'' = Some 0
   \<and> createPeerConnection accepting ''p'' ''Pat'' True mic_and_camera
        (run accepting (mount ''room'' ''me'' mic_and_camera)
           [Inbound (UserJoined (user ''p'' ''Pat''))])
       = run accepting (mount ''room'' ''me'' mic_and_camera)
           [Inbound (UserJoined (user ''p'' ''Pat''))]
   \<and> map_of (peers (run accepting (mount ''room'' ''me'' mic_and_camera)
        [Inbound (UserJoined (user ''p'' ''Pat''))])) ''q'' = None
   \<and> map_of (peers (createPeerConnection accepting ''q'' ''Quinn'' False mic_and_camera
        (run accepting (mount ''room'' ''me'' mic_and_camera)
           [Inbound (UserJoined (user ''p'' ''Pat''))]))) ''q'' = Some 1
   \<and> length (connections (createPeerConnection accepting ''q'' ''Quinn'' False mic_and_camera
        (run accepting (mount ''room'' ''me'' mic_and_camera)
           [Inbound (UserJoined (user ''p'' ''Pat''))]))) = 2"
proof -
  let ?s = "run accepting (mount ''room'' ''me'' mic_and_camera)
      [Inbound (UserJoined (user ''p'' ''Pat''))]"
  have p: "map_of (peers ?s) ''p'' = Some 0"
    by code_simp
  have q: "map_of (peers ?s) ''q'' = None"
    by code_simp
  have n: "length (connections ?s) = 1"
    by code_simp
  note known = createPeerConnection_idempotent[of accepting "''room''" "''me''" mic_and_camera
      "[Inbound (UserJoined (user ''p'' ''Pat''))]" "''p''" "''Pat''" True mic_and_camera,
      unfolded Let_def, THEN conjunct1]
  note new = createPeerConnection_idempotent[of accepting "''room''" "''me''" mic_and_camera
      "[Inbound (UserJoined (user ''p'' ''Pat''))]" "''q''" "''Quinn''" False mic_and_camera,
      unfolded Let_def, THEN conjunct2, THEN conjunct2, THEN conjunct1]
  have "map_of (peers ?s) ''p'' \<noteq> None"
    by (simp only: p) simp
  from mp[OF known this]
  have same: "createPeerConnection accepting ''p'' ''Pat'' True mic_and_camera ?s = ?s" .
  note fresh = mp[OF new q]
  from fresh
  have r1: "map_of (peers (createPeerConnection accepting ''q'' ''Quinn'' False mic_and_camera ?s)) ''q''
      = Some (length (connections ?s))"
    by (rule conjunct1)
  from fresh
  have r2: "length (connections (createPeerConnection accepting ''q'' ''Quinn'' False mic_and_camera ?s))
      = Suc (length (connections ?s))"
    by (rule conjunct2[THEN conjunct1])
  have c4: "map_of (peers (createPeerConnection accepting ''q'' ''Quinn'' False mic_and_camera ?s)) ''q''
      = Some 1"
    by (simp only: r1 n)
  have c5: "length (connections (createPeerConnection accepting ''q'' ''Quinn'' False mic_and_camera ?s))
      = 2"
    by (simp only: r2 n)
  show ?thesis
    by (intro conjI p same q c4 c5)
qed

lemma on_user_left_roster:
  "userId data \<notin> set (map id_p (participants (on_user_left data s)))"
  by (auto simp: on_user_left_def Let_def)

lemma on_user_left_unmapped: "map_of (peers (on_user_left data s)) (userId data) = None"
  by (simp add: on_user_left_def update_pc_def delete_conv' split: option.splits)

lemma on_user_left_closed:
  assumes "map_of (peers s) (userId data) = Some a" "a < length (connections s)"
  shows "pc_closed (connections (on_user_left data s) ! a)
    \<and> owner (connections (on_user_left data s) ! a) = owner (connections s ! a)
    \<and> length (connections (on_user_left data s)) = length (connections s)"
  using assms by (simp add: on_user_left_def update_pc_def)

text \<open>
  C8. From every state reached from the mounted hook with the socket connected, a
  user-joined event followed by a user-left event of the same userId leaves no participant
  of that id in the roster and no entry of that id in the map of peers; the connection the
  id was mapped to is closed, and no open connection of that id remains.
\<close>

theorem joined_then_left:
  "let s = run eng (mount room uname strm) acts;
       s1 = deliver eng s (UserJoined joined);
       s2 = deliver eng s1 (UserLeft left)
   in socket_connected s \<and> userId left = userId joined \<longrightarrow>
        userId joined \<notin> set (map id_p (participants s2))
        \<and> map_of (peers s2) (userId joined) = None
        \<and> userId joined \<notin> fst ` set (peers s2)
        \<and> (\<exists>a. map_of (peers s1) (userId joined) = Some a \<and> a < length (connections s2)
               \<and> owner (connections s2 ! a) = userId joined \<and> pc_closed (connections s2 ! a))
        \<and> filter (\<lambda>pc. owner pc = userId joined \<and> \<not> pc_closed pc) (connections s2) = []"
proof -
  define s where "s = run eng (mount room uname strm) acts"
  define s1 where "s1 = deliver eng s (UserJoined joined)"
  define s2 where "s2 = deliver eng s1 (UserLeft left)"
  have goal: "userId joined \<notin> set (map id_p (participants s2))
        \<and> map_of (peers s2) (userId joined) = None
        \<and> userId joined \<notin> fst ` set (peers s2)
        \<and> (\<exists>a. map_of (peers s1) (userId joined) = Some a \<and> a < length (connections s2)
               \<and> owner (connections s2 ! a) = userId joined \<and> pc_closed (connections s2 ! a))
        \<and> filter (\<lambda>pc. owner pc = userId joined \<and> \<not> pc_closed pc) (connections s2) = []"
    if conn: "socket_connected s" and same: "userId left = userId joined"
  proof -
    have ok: "peers_ok s"
      unfolding s_def by (rule peers_ok_reachable)
    have s1: "s1 = on_user_joined eng joined s"
      using conn by (simp add: s1_def deliver_def)
    have "admission s1 = admission s"
      unfolding s1 by (rule admission_handlers)
    with conn have conn1: "socket_connected s1"
      by (simp add: admission_def)
    then have s2: "s2 = on_user_left left s1"
      by (simp add: s2_def deliver_def)
    have ok1: "peers_ok s1"
      unfolding s1 using ok by (rule peers_ok_on_user_joined)
    then have ok2: "peers_ok s2"
      unfolding s2 by (rule peers_ok_on_user_left)
    have "map_of (peers s1) (userId joined) \<noteq> None"
      unfolding s1 on_user_joined_def Let_def by (rule createPeerConnection_mapped)
    then obtain a where a: "map_of (peers s1) (userId joined) = Some a"
      by auto
    with ok1 have al: "a < length (connections s1)" and ao: "owner (connections s1 ! a) = userId joined"
      unfolding peers_ok_def using map_of_SomeD[OF a] by fastforce+
    have roster: "userId joined \<notin> set (map id_p (participants s2))"
      unfolding s2 using on_user_left_roster[of left s1] same by simp
    have unmapped: "map_of (peers s2) (userId joined) = None"
      unfolding s2 using on_user_left_unmapped[of left s1] same by simp
    then have nokey: "userId joined \<notin> fst ` set (peers s2)"
      by (simp add: map_of_eq_None_iff)
    have closed: "a < length (connections s2) \<and> owner (connections s2 ! a) = userId joined
        \<and> pc_closed (connections s2 ! a)"
      unfolding s2 using on_user_left_closed[of s1 left a] a al ao same by simp
    have "\<not> (owner pc = userId joined \<and> \<not> pc_closed pc)" if "pc \<in> set (connections s2)" for pc
    proof
      assume open_pc: "owner pc = userId joined \<and> \<not> pc_closed pc"
      from that obtain b where "b < length (connections s2)" "connections s2 ! b = pc"
        by (auto simp: in_set_conv_nth)
      with ok2 open_pc have "(userId joined, b) \<in> set (peers s2)"
        unfolding peers_ok_def by metis
      with nokey show False
        by force
    qed
    then have none_open: "filter (\<lambda>pc. owner pc = userId joined \<and> \<not> pc_closed pc) (connections s2) = []"
      by (simp add: filter_empty_conv)
    from roster unmapped nokey a closed none_open show ?thesis
      by blast
  qed
  then show ?thesis
    unfolding Let_def s_def[symmetric] s1_def[symmetric] s2_def[symmetric] by blast
qed

theorem joined_then_left_witness:
  "socket_connected (run accepting (mount ''room'' ''me'' mic_and_camera) [])
   \<and> ''p'' \<in> set (map id_p (participants
        (deliver accepting (run accepting (mount ''room'' ''me'' mic_and_camera) [])
           (UserJoined (user ''p'' ''Pat'')))))
   \<and> userId (user ''p'' ''Pat'') \<notin> set (map id_p (participants
        (deliver accepting
           (deliver accepting (run accepting (mount ''room'' ''me'' mic_and_camera) [])
              (UserJoined (user ''p'' ''Pat'')))
           (UserLeft (user ''p'' ''Pat'')))))
   \<and> map_of (peers
        (deliver accepting
           (deliver accepting (run accepting (mount ''room'' ''me'' mic_and_camera) [])
              (UserJoined (user ''p'' ''Pat'')))
           (UserLeft (user ''p'' ''Pat'')))) (userId (user ''p'' ''Pat'')) = None"
proof -
  let ?s = "run accepting (mount ''room'' ''me'' mic_and_camera) []"
  have c: "socket_connected ?s"
    by (simp add: run_def mount_def emit_def)
  have j: "''p'' \<in> set (map id_p (participants (deliver accepting ?s (UserJoined (user ''p'' ''Pat'')))))"
    by code_simp
  have "socket_connected ?s \<and> userId (user ''p'' ''Pat'') = userId (user ''p'' ''Pat'')"
    using c by simp
  note gone = mp[OF joined_then_left[of accepting "''room''" "''me''" mic_and_camera "[]"
        "user ''p'' ''Pat''" "user ''p'' ''Pat''", unfolded Let_def] this]
  from gone
  have r: "userId (user ''p'' ''Pat'') \<notin> set (map id_p (participants
        (deliver accepting (deliver accepting ?s (UserJoined (user ''p'' ''Pat'')))
           (UserLeft (user ''p'' ''Pat'')))))"
    by (rule conjunct1)
  from gone
  have m: "map_of (peers
        (deliver accepting (deliver accepting ?s (UserJoined (user ''p'' ''Pat'')))
           (UserLeft (user ''p'' ''Pat'')))) (userId (user ''p'' ''Pat'')) = None"
    by (rule conjunct2[THEN conjunct1])
  show ?thesis
    by (intro conjI c j r m)
qed

section \<open>Replacing the outbound track\<close>

lemma replace_first_length: "length (replace_first eng t sns) = length sns"
  by (induction sns) simp_all

lemma replace_first_none:
  "(\<forall>sn \<in> set sns. \<not> sender_matches t sn) \<Longrightarrow> replace_first eng t sns = sns"
  by (induction sns) simp_all

lemma replace_first_idem:
  "replace_first eng t (replace_first eng t sns) = replace_first eng t sns"
  by (induction sns) (simp_all add: sender_matches_def)

lemma replace_first_nth:
  "j < length sns \<Longrightarrow>
     replace_first eng t sns ! j =
       (if sender_matches t (sns ! j) \<and> (\<forall>k<j. \<not> sender_matches t (sns ! k))
           \<and> senderReplaceTrack eng (sns ! j) t
        then (sns ! j)\<lparr>track := Some t\<rparr> else sns ! j)"
proof (induction sns arbitrary: j)
  case Nil
  then show ?case by simp
next
  case (Cons sn sns)
  show ?case
  proof (cases j)
    case 0
    then show ?thesis by simp
  next
    case (Suc i)
    with Cons.prems have i: "i < length sns" by simp
    have shift: "(\<forall>k<Suc i. \<not> sender_matches t ((sn # sns) ! k))
        = (\<not> sender_matches t sn \<and> (\<forall>k<i. \<not> sender_matches t (sns ! k)))"
      by (auto simp: less_Suc_eq_0_disj)
    show ?thesis
      unfolding Suc shift using Cons.IH[OF i] by auto
  qed
qed

text \<open>The loop of \<open>replaceTrack\<close> over the map of peers, connection by connection.\<close>

lemma fold_update_pc_only_connections:
  "\<exists>cs. fold (\<lambda>(uid, a). update_pc a g) ps s = s\<lparr>connections := cs\<rparr>"
proof (induction ps arbitrary: s)
  case Nil
  have "s = s\<lparr>connections := connections s\<rparr>" by simp
  then show ?case by (auto intro: exI[of _ "connections s"])
next
  case (Cons x ps)
  obtain uid a where x: "x = (uid, a)" by (cases x)
  from Cons.IH[of "update_pc a g s"] obtain cs where
    "fold (\<lambda>(uid, a). update_pc a g) ps (update_pc a g s) = (update_pc a g s)\<lparr>connections := cs\<rparr>"
    by blast
  then have "fold (\<lambda>(uid, a). update_pc a g) (x # ps) s = s\<lparr>connections := cs\<rparr>"
    by (simp add: x update_pc_def)
  then show ?case by blast
qed

lemma fold_update_pc_frame:
  "fold (\<lambda>(uid, a). update_pc a g) ps s
     = s\<lparr>connections := connections (fold (\<lambda>(uid, a). update_pc a g) ps s)\<rparr>"
proof -
  obtain cs where eq: "fold (\<lambda>(uid, a). update_pc a g) ps s = s\<lparr>connections := cs\<rparr>"
    using fold_update_pc_only_connections by blast
  then have "connections (fold (\<lambda>(uid, a). update_pc a g) ps s) = cs"
    by simp
  with eq show ?thesis by simp
qed

lemma fold_update_pc_connections:
  assumes "\<And>c. g (g c) = g c"
  shows "length (connections (fold (\<lambda>(uid, a). update_pc a g) ps s)) = length (connections s)
    \<and> (\<forall>b < length (connections s).
          connections (fold (\<lambda>(uid, a). update_pc a g) ps s) ! b
            = (if b \<in> snd ` set ps then g (connections s ! b) else connections s ! b))"
proof (induction ps arbitrary: s)
  case Nil
  then show ?case by simp
next
  case (Cons x ps)
  obtain uid a where x: "x = (uid, a)" by (cases x)
  let ?s1 = "update_pc a g s"
  have len: "length (connections ?s1) = length (connections s)"
    by (simp add: update_pc_def)
  have one: "connections ?s1 ! b = (if b = a then g (connections s ! b) else connections s ! b)"
    if "b < length (connections s)" for b
    using that by (simp add: update_pc_def nth_list_update)
  from Cons.IH[of ?s1] have
    l: "length (connections (fold (\<lambda>(uid, a). update_pc a g) ps ?s1)) = length (connections s)"
    and r: "\<And>b. b < length (connections s) \<Longrightarrow>
          connections (fold (\<lambda>(uid, a). update_pc a g) ps ?s1) ! b
            = (if b \<in> snd ` set ps then g (connections ?s1 ! b) else connections ?s1 ! b)"
    by (simp_all add: len)
  show ?case
    unfolding x using l r one assms by (auto simp: image_iff)
qed

lemma replaceTrack_connections:
  "length (connections (replaceTrack eng newTrack s)) = length (connections s)
   \<and> (\<forall>a < length (connections s).
         connections (replaceTrack eng newTrack s) ! a
           = (if a \<in> snd ` set (peers s)
              then (connections s ! a)
                     \<lparr>getSenders := replace_first eng newTrack (getSenders (connections s ! a))\<rparr>
              else connections s ! a))"
  unfolding replaceTrack_def
  by (rule fold_update_pc_connections) (simp add: replace_first_idem)

text \<open>
  C6. \<open>replaceTrack\<close> changes nothing but the store of connections, and there only the
  senders of the connections the map of peers holds. In each of them the one sender that may
  change is the first whose track has the kind of the new track: it carries the new track
  if the browser accepts the replacement (a rejection is caught and leaves it as it was).
  Every other sender, every sender of a connection not held, and a held connection with no
  sender of that kind are unchanged.
\<close>

theorem replaceTrack_frame:
  "let s2 = replaceTrack eng newTrack s in
     s2 = s\<lparr>connections := connections s2\<rparr>
     \<and> length (connections s2) = length (connections s)
     \<and> (\<forall>a < length (connections s).
          (a \<notin> snd ` set (peers s) \<longrightarrow> connections s2 ! a = connections s ! a)
          \<and> connections s2 ! a = (connections s ! a)\<lparr>getSenders := getSenders (connections s2 ! a)\<rparr>
          \<and> length (getSenders (connections s2 ! a)) = length (getSenders (connections s ! a))
          \<and> ((\<forall>sn \<in> set (getSenders (connections s ! a)). \<not> sender_matches newTrack sn) \<longrightarrow>
                connections s2 ! a = connections s ! a)
          \<and> (\<forall>j < length (getSenders (connections s ! a)).
                getSenders (connections s2 ! a) ! j =
                  (if a \<in> snd ` set (peers s)
                      \<and> sender_matches newTrack (getSenders (connections s ! a) ! j)
                      \<and> (\<forall>k<j. \<not> sender_matches newTrack (getSenders (connections s ! a) ! k))
                      \<and> senderReplaceTrack eng (getSenders (connections s ! a) ! j) newTrack
                   then (getSenders (connections s ! a) ! j)\<lparr>track := Some newTrack\<rparr>
                   else getSenders (connections s ! a) ! j)))"
proof -
  define s2 where "s2 = replaceTrack eng newTrack s"
  have frame: "s2 = s\<lparr>connections := connections s2\<rparr>"
    unfolding s2_def replaceTrack_def by (rule fold_update_pc_frame)
  have len: "length (connections s2) = length (connections s)"
    unfolding s2_def using replaceTrack_connections by blast
  have each: "(a \<notin> snd ` set (peers s) \<longrightarrow> connections s2 ! a = connections s ! a)
          \<and> connections s2 ! a = (connections s ! a)\<lparr>getSenders := getSenders (connections s2 ! a)\<rparr>
          \<and> length (getSenders (connections s2 ! a)) = length (getSenders (connections s ! a))
          \<and> ((\<forall>sn \<in> set (getSenders (connections s ! a)). \<not> sender_matches newTrack sn) \<longrightarrow>
                connections s2 ! a = connections s ! a)
          \<and> (\<forall>j < length (getSenders (connections s ! a)).
                getSenders (connections s2 ! a) ! j =
                  (if a \<in> snd ` set (peers s)
                      \<and> sender_matches newTrack (getSenders (connections s ! a) ! j)
                      \<and> (\<forall>k<j. \<not> sender_matches newTrack (getSenders (connections s ! a) ! k))
                      \<and> senderReplaceTrack eng (getSenders (connections s ! a) ! j) newTrack
                   then (getSenders (connections s ! a) ! j)\<lparr>track := Some newTrack\<rparr>
                   else getSenders (connections s ! a) ! j))"
    if a: "a < length (connections s)" for a
  proof (cases "a \<in> snd ` set (peers s)")
    case False
    with a have "connections s2 ! a = connections s ! a"
      unfolding s2_def using replaceTrack_connections[of eng newTrack s] by simp
    with False show ?thesis by simp
  next
    case True
    with a have eq: "connections s2 ! a = (connections s ! a)
        \<lparr>getSenders := replace_first eng newTrack (getSenders (connections s ! a))\<rparr>"
      unfolding s2_def using replaceTrack_connections[of eng newTrack s] by simp
    have nth: "\<forall>j < length (getSenders (connections s ! a)).
        replace_first eng newTrack (getSenders (connections s ! a)) ! j =
          (if sender_matches newTrack (getSenders (connections s ! a) ! j)
              \<and> (\<forall>k<j. \<not> sender_matches newTrack (getSenders (connections s ! a) ! k))
              \<and> senderReplaceTrack eng (getSenders (connections s ! a) ! j) newTrack
           then (getSenders (connections s ! a) ! j)\<lparr>track := Some newTrack\<rparr>
           else getSenders (connections s ! a) ! j)"
      using replace_first_nth[of _ "getSenders (connections s ! a)" eng newTrack] by blast
    show ?thesis
      unfolding eq using True nth
      by (simp add: replace_first_length replace_first_none)
  qed
  from frame len each show ?thesis
    unfolding Let_def s2_def[symmetric] by blast
qed

theorem replaceTrack_frame_witness:
  "connections (replaceTrack accepting screen_track two_peers) ! 1 = connections two_peers ! 1
   \<and> getSenders (connections (replaceTrack accepting screen_track two_peers) ! 0)
       = [\<lparr>track = Some \<lparr>track_id = 1, kind = Audio\<rparr>\<rparr>, \<lparr>track = Some screen_track\<rparr>]"
proof -
  note inst = replaceTrack_frame[of accepting screen_track two_peers, unfolded Let_def,
      THEN conjunct2, THEN conjunct2]
  have l: "length (connections two_peers) = 2"
    by (simp add: two_peers_def)
  have c0: "connections two_peers ! 0 = \<lparr>owner = ''A'',
          getSenders = [\<lparr>track = Some \<lparr>track_id = 1, kind = Audio\<rparr>\<rparr>,
                        \<lparr>track = Some \<lparr>track_id = 2, kind = Video\<rparr>\<rparr>],
          localDescription = None, remoteDescription = None, remoteCandidates = [],
          pc_closed = False\<rparr>"
    and c1: "connections two_peers ! 1 = \<lparr>owner = ''B'',
          getSenders = [\<lparr>track = Some \<lparr>track_id = 1, kind = Audio\<rparr>\<rparr>],
          localDescription = None, remoteDescription = None, remoteCandidates = [],
          pc_closed = False\<rparr>"
    and ps: "peers two_peers = [(''A'', 0), (''B'', 1)]"
    by (simp_all add: two_peers_def)
  have "1 < length (connections two_peers)" by (simp add: l)
  note at1 = inst[rule_format, OF this]
  note at1[THEN conjunct2, THEN conjunct2, THEN conjunct2, THEN conjunct1]
  moreover have "\<forall>sn \<in> set (getSenders (connections two_peers ! 1)). \<not> sender_matches screen_track sn"
    unfolding c1 by (simp add: sender_matches_def screen_track_def)
  ultimately have other: "connections (replaceTrack accepting screen_track two_peers) ! 1
      = connections two_peers ! 1"
    by (rule mp)
  have "0 < length (connections two_peers)" by (simp add: l)
  note at0 = inst[rule_format, OF this]
  note len0 = at0[THEN conjunct2, THEN conjunct2, THEN conjunct1]
  note nth0 = at0[THEN conjunct2, THEN conjunct2, THEN conjunct2, THEN conjunct2]
  have j0: "0 < length (getSenders (connections two_peers ! 0))"
    and j1: "1 < length (getSenders (connections two_peers ! 0))"
    unfolding c0 by simp_all
  have e0: "getSenders (connections (replaceTrack accepting screen_track two_peers) ! 0) ! 0
      = \<lparr>track = Some \<lparr>track_id = 1, kind = Audio\<rparr>\<rparr>"
    unfolding nth0[rule_format, OF j0] c0
    by (simp add: sender_matches_def screen_track_def)
  have e1: "getSenders (connections (replaceTrack accepting screen_track two_peers) ! 0) ! 1
      = \<lparr>track = Some screen_track\<rparr>"
    unfolding nth0[rule_format, OF j1] c0 ps
    by (simp add: sender_matches_def screen_track_def accepting_def)
  have l0: "length (getSenders (connections (replaceTrack accepting screen_track two_peers) ! 0)) = 2"
    unfolding len0 c0 by simp
  have "getSenders (connections (replaceTrack accepting screen_track two_peers) ! 0)
      = [\<lparr>track = Some \<lparr>track_id = 1, kind = Audio\<rparr>\<rparr>, \<lparr>track = Some screen_track\<rparr>]"
  proof (rule nth_equalityI)
    show "length (getSenders (connections (replaceTrack accepting screen_track two_peers) ! 0))
        = length [\<lparr>track = Some \<lparr>track_id = 1, kind = Audio\<rparr>\<rparr>, \<lparr>track = Some screen_track\<rparr>]"
      unfolding l0 by simp
  next
    fix j assume "j < length (getSenders (connections (replaceTrack accepting screen_track two_peers) ! 0))"
    then have "j = 0 \<or> j = 1" unfolding l0 by auto
    then show "getSenders (connections (replaceTrack accepting screen_track two_peers) ! 0) ! j
        = [\<lparr>track = Some \<lparr>track_id = 1, kind = Audio\<rparr>\<rparr>, \<lparr>track = Some screen_track\<rparr>] ! j"
    proof
      assume "j = 0"
      then show ?thesis using e0 by simp
    next
      assume "j = 1"
      then show ?thesis using e1 by simp
    qed
  qed
  with other show ?thesis
    by (intro conjI)
qed

section \<open>The roster\<close>

lemma participants_emit: "participants (emit m s) = participants s"
  by (simp add: emit_def)

lemma participants_fold_emit: "participants (fold (\<lambda>c. emit (f c)) cs s) = participants s"
  by (induction cs arbitrary: s) (simp_all add: participants_emit)

lemma participants_update_pc: "participants (update_pc a f s) = participants s"
  by (simp add: update_pc_def)

lemma participants_fold_update_pc:
  "participants (fold (\<lambda>(uid, a). update_pc a (f uid a)) ps s) = participants s"
  by (induction ps arbitrary: s) (auto simp: participants_update_pc)

lemma participants_createPeerConnection:
  "participants (createPeerConnection eng uid uname ini strm s) = participants s"
  by (simp add: createPeerConnection_def Let_def participants_emit participants_update_pc
      split: option.splits)

lemma participants_onIceTimer: "participants (onIceTimer uid s) = participants s"
  by (simp add: onIceTimer_def Let_def participants_fold_emit)

lemma participants_onicecandidate: "participants (onicecandidate uid cand s) = participants s"
  by (simp add: onicecandidate_def Let_def setTimeout_def clearTimeout_def split: option.splits)

lemma participants_fire: "participants (fire x s) = participants s"
  by (simp add: fire_def participants_onIceTimer)

lemma participants_advance: "participants (advance t s) = participants s"
proof (induction t s rule: advance.induct)
  case (1 t s)
  show ?case
  proof (cases "next_due t (timeouts s)")
    case None
    then show ?thesis by (subst advance.simps) simp
  next
    case (Some x)
    with "1.IH" show ?thesis by (subst advance.simps) (simp add: participants_fire)
  qed
qed

lemma participants_call:
  "participants (step eng s (Call c)) = participants s"
  by (cases c)
    (simp_all add: step_def replaceTrack_def participants_fold_update_pc admitUser_def
      rejectUser_def toggleMediaStatus_def emitScreenShareStatus_def emit_def Let_def)

lemma participants_plain:
  "participants (on_waiting_for_approval s) = participants s"
  "participants (on_join_approved s) = participants s"
  "participants (on_join_rejected s) = participants s"
  "participants (on_join_request data s) = participants s"
  "participants (on_answer eng from answer s) = participants s"
  "participants (on_ice_candidate eng from cand s) = participants s"
  by (simp_all add: on_waiting_for_approval_def on_join_approved_def on_join_rejected_def
      on_join_request_def playNotificationSound_def on_answer_def on_ice_candidate_def
      participants_update_pc split: option.splits)

lemma participants_on_user_joined:
  "participants (on_user_joined eng data s)
     = (if list_ex (\<lambda>p. id_p p = userId data) (participants s) then participants s
        else participants s @ [new_participant (userId data) (userName data)])"
  by (simp add: on_user_joined_def Let_def participants_createPeerConnection add_participant_def
      playNotificationSound_def)

lemma participants_on_offer:
  "participants (on_offer eng from offer uname s)
     = (if list_ex (\<lambda>p. id_p p = from) (participants s) then participants s
        else participants s @ [new_participant from uname])"
proof -
  define s2 where "s2 = (if map_of (peers (add_participant from uname s)) from = None
             then createPeerConnection eng from uname False
                    (localStream (add_participant from uname s)) (add_participant from uname s)
             else add_participant from uname s)"
  have s2: "participants s2 = participants (add_participant from uname s)"
    by (simp add: s2_def participants_createPeerConnection)
  have "participants (on_offer eng from offer uname s) = participants s2"
    unfolding on_offer_def Let_def s2_def[symmetric]
    by (simp add: participants_emit participants_update_pc split: option.splits)
  then show ?thesis
    by (simp add: s2 add_participant_def)
qed

lemma set_uniqueUsers_subset: "set (uniqueUsers users) \<subseteq> set users"
  by (auto simp: uniqueUsers_nth)

lemma new_participant_fields:
  "stream (new_participant uid uname) = Null \<and> isMicOn (new_participant uid uname) = Some True
   \<and> isCameraOn (new_participant uid uname) = Some True
   \<and> id_p (new_participant uid uname) = uid \<and> name (new_participant uid uname) = uname"
  by (simp add: new_participant_def)

text \<open>Where an entry of the roster after a step comes from.\<close>

lemma participant_origin:
  "\<forall>p \<in> set (participants (step eng s act)).
     (stream p = Null \<and> isMicOn p = Some True \<and> isCameraOn p = Some True
      \<and> ((\<exists>d. act = Inbound (UserJoined d) \<and> userId d = id_p p \<and> userName d = name p)
         \<or> (\<exists>offer. act = Inbound (Offer (id_p p) offer (name p)))
         \<or> (\<exists>users. act = Inbound (ExistingUsers users) \<and> id_p p \<in> set (map userId users))))
     \<or> (\<exists>q \<in> set (participants s). id_p q = id_p p \<and> name q = name p
          \<and> (stream p = stream q
             \<or> (\<exists>a streams. act = FromPc a (TrackEvent streams)
                   \<and> a < length (connections s) \<and> \<not> pc_closed (connections s ! a)
                   \<and> owner (connections s ! a) = id_p p \<and> stream p = first_stream streams)))"
proof
  fix p assume p: "p \<in> set (participants (step eng s act))"
  let ?init = "stream p = Null \<and> isMicOn p = Some True \<and> isCameraOn p = Some True
      \<and> ((\<exists>d. act = Inbound (UserJoined d) \<and> userId d = id_p p \<and> userName d = name p)
         \<or> (\<exists>offer. act = Inbound (Offer (id_p p) offer (name p)))
         \<or> (\<exists>users. act = Inbound (ExistingUsers users) \<and> id_p p \<in> set (map userId users)))"
  let ?kept = "\<exists>q \<in> set (participants s). id_p q = id_p p \<and> name q = name p
          \<and> (stream p = stream q
             \<or> (\<exists>a streams. act = FromPc a (TrackEvent streams)
                   \<and> a < length (connections s) \<and> \<not> pc_closed (connections s ! a)
                   \<and> owner (connections s ! a) = id_p p \<and> stream p = first_stream streams))"
  have old: "?kept" if "p \<in> set (participants s)"
    using that by blast
  show "?init \<or> ?kept"
  proof (cases act)
    case (Call c)
    with p old show ?thesis by (simp add: participants_call)
  next
    case (ClockReaches t)
    with p old show ?thesis by (simp add: step_def participants_advance)
  next
    case (FromPc a ev)
    show ?thesis
    proof (cases "a < length (connections s) \<and> \<not> pc_closed (connections s ! a)")
      case False
      with p FromPc old show ?thesis by (simp add: step_def pc_fires_def)
    next
      case live: True
      show ?thesis
      proof (cases ev)
        case (TrackEvent streams)
        define upd where "upd = (\<lambda>q :: participant. if id_p q = owner (connections s ! a)
                        then q\<lparr>stream := first_stream streams\<rparr> else q)"
        have "participants (step eng s act) = map upd (participants s)"
          using FromPc live TrackEvent
          by (simp add: step_def pc_fires_def ontrack_def upd_def)
        with p obtain q where q: "q \<in> set (participants s)" and "p = upd q"
          by auto
        then have pq: "p = (if id_p q = owner (connections s ! a)
                        then q\<lparr>stream := first_stream streams\<rparr> else q)"
          by (simp add: upd_def)
        with q have "?kept"
          using FromPc TrackEvent live by (cases "id_p q = owner (connections s ! a)") auto
        then show ?thesis ..
      next
        case (IceCandidateEvent cand)
        with p FromPc live old show ?thesis
          by (simp add: step_def pc_fires_def participants_onicecandidate)
      next
        case ConnectionStateChange
        with p FromPc live old show ?thesis by (simp add: step_def pc_fires_def)
      qed
    qed
  next
    case (Inbound e)
    show ?thesis
    proof (cases "socket_connected s")
      case False
      with p Inbound old show ?thesis by (simp add: step_def deliver_def)
    next
      case True
      show ?thesis
      proof (cases e)
        case WaitingForApproval
        with p Inbound True old show ?thesis by (simp add: step_def deliver_def participants_plain)
      next
        case JoinApproved
        with p Inbound True old show ?thesis by (simp add: step_def deliver_def participants_plain)
      next
        case JoinRejected
        with p Inbound True old show ?thesis by (simp add: step_def deliver_def participants_plain)
      next
        case (JoinRequest d)
        with p Inbound True old show ?thesis by (simp add: step_def deliver_def participants_plain)
      next
        case (Answer peer answer)
        with p Inbound True old show ?thesis by (simp add: step_def deliver_def participants_plain)
      next
        case (IceCandidateIn peer cand)
        with p Inbound True old show ?thesis by (simp add: step_def deliver_def participants_plain)
      next
        case (UserLeft d)
        with p Inbound True have "p \<in> set (participants s)"
          by (auto simp: step_def deliver_def on_user_left_def update_pc_def Let_def
              split: option.splits)
        with old show ?thesis by simp
      next
        case (UserJoined d)
        with p Inbound True
        have "p \<in> set (participants s) \<or> p = new_participant (userId d) (userName d)"
          by (auto simp: step_def deliver_def participants_on_user_joined split: if_splits)
        then show ?thesis
        proof
          assume "p \<in> set (participants s)"
          with old show ?thesis by simp
        next
          assume "p = new_participant (userId d) (userName d)"
          with Inbound UserJoined have ?init
            by (simp add: new_participant_fields)
          then show ?thesis ..
        qed
      next
        case (Offer peer offer uname)
        with p Inbound True
        have "p \<in> set (participants s) \<or> p = new_participant peer uname"
          by (auto simp: step_def deliver_def participants_on_offer split: if_splits)
        then show ?thesis
        proof
          assume "p \<in> set (participants s)"
          with old show ?thesis by simp
        next
          assume "p = new_participant peer uname"
          with Inbound Offer have ?init
            by (simp add: new_participant_fields)
          then show ?thesis ..
        qed
      next
        case (ExistingUsers users)
        with p Inbound True obtain u where "u \<in> set (uniqueUsers users)"
          and pu: "p = new_participant (userId u) (userName u)"
          by (auto simp: step_def deliver_def on_existing_users_def)
        then have "u \<in> set users"
          using set_uniqueUsers_subset by blast
        with pu Inbound ExistingUsers have ?init
          by (auto simp: new_participant_fields)
        then show ?thesis ..
      next
        case (MediaStatusUpdate uid k isOn)
        define upd where "upd = (\<lambda>q :: participant. if id_p q = uid
                        then (if k = Audio then q\<lparr>isMicOn := Some isOn\<rparr>
                              else q\<lparr>isCameraOn := Some isOn\<rparr>)
                        else q)"
        have "participants (step eng s act) = map upd (participants s)"
          using Inbound True MediaStatusUpdate
          by (simp add: step_def deliver_def on_media_status_update_def upd_def)
        with p obtain q where q: "q \<in> set (participants s)" and "p = upd q"
          by auto
        then have pq: "p = (if id_p q = uid
                        then (if k = Audio then q\<lparr>isMicOn := Some isOn\<rparr>
                              else q\<lparr>isCameraOn := Some isOn\<rparr>)
                        else q)"
          by (simp add: upd_def)
        have "id_p p = id_p q \<and> name p = name q \<and> stream p = stream q"
          unfolding pq by simp
        with q have ?kept by metis
        then show ?thesis ..
      qed
    qed
  qed
qed

lemma snapshot_entries:
  assumes "socket_connected s"
  shows "participants (step eng s (Inbound (ExistingUsers users)))
    = map (\<lambda>u. \<lparr>id_p = userId u, name = userName u, stream = Null, isMicOn = Some True,
                  isCameraOn = Some True\<rparr>) (uniqueUsers users)"
  using assms by (simp add: step_def deliver_def on_existing_users_def new_participant_def)

lemma track_entries:
  assumes "a < length (connections s)" "\<not> pc_closed (connections s ! a)"
  shows "participants (step eng s (FromPc a (TrackEvent streams)))
    = map (\<lambda>p. if id_p p = owner (connections s ! a)
                then p\<lparr>stream := first_stream streams\<rparr> else p) (participants s)"
  using assms by (simp add: step_def pc_fires_def ontrack_def)

text \<open>
  C10. A delivered user-joined event, and a delivered offer, of an id the roster does not
  hold append one entry with that id and name, stream null and both isMicOn and isCameraOn
  true, and leave the roster as it is when it holds the id; a delivered existing-users
  snapshot replaces the roster by one such entry for each kept user of the list, so every
  entry, also one of an id the roster held, has stream null and both flags true. A track
  event of an open connection sets the stream of the entries with the id the connection was
  created for to the first stream of the event, and leaves the rest. After any step, each
  entry of the roster is either one just created on one of the three paths, with stream
  null and both flags true, or, the step not being a delivered snapshot, an entry the
  roster held before with the same id and name, whose stream is the one it had unless the
  step is such a track event for its id.
\<close>

theorem participant_fields:
  "(socket_connected s \<longrightarrow>
      participants (step eng s (Inbound (UserJoined d)))
        = (if list_ex (\<lambda>p. id_p p = userId d) (participants s) then participants s
           else participants s @
             [\<lparr>id_p = userId d, name = userName d, stream = Null, isMicOn = Some True,
               isCameraOn = Some True\<rparr>])
      \<and> participants (step eng s (Inbound (Offer peer offer uname)))
        = (if list_ex (\<lambda>p. id_p p = peer) (participants s) then participants s
           else participants s @
             [\<lparr>id_p = peer, name = uname, stream = Null, isMicOn = Some True,
               isCameraOn = Some True\<rparr>])
      \<and> participants (step eng s (Inbound (ExistingUsers users)))
        = map (\<lambda>u. \<lparr>id_p = userId u, name = userName u, stream = Null, isMicOn = Some True,
                      isCameraOn = Some True\<rparr>) (uniqueUsers users))
   \<and> (a < length (connections s) \<and> \<not> pc_closed (connections s ! a) \<longrightarrow>
        participants (step eng s (FromPc a (TrackEvent streams)))
          = map (\<lambda>p. if id_p p = owner (connections s ! a)
                      then p\<lparr>stream := first_stream streams\<rparr> else p) (participants s))
   \<and> (\<forall>p \<in> set (participants (step eng s act)).
        (stream p = Null \<and> isMicOn p = Some True \<and> isCameraOn p = Some True
         \<and> ((\<exists>d. act = Inbound (UserJoined d) \<and> userId d = id_p p \<and> userName d = name p)
            \<or> (\<exists>offer. act = Inbound (Offer (id_p p) offer (name p)))
            \<or> (\<exists>users. act = Inbound (ExistingUsers users)
                  \<and> id_p p \<in> set (map userId users))))
        \<or> (\<not> (socket_connected s \<and> (\<exists>users. act = Inbound (ExistingUsers users)))
            \<and> (\<exists>q \<in> set (participants s). id_p q = id_p p \<and> name q = name p
                 \<and> (stream p = stream q
                    \<or> (\<exists>a streams. act = FromPc a (TrackEvent streams)
                          \<and> a < length (connections s) \<and> \<not> pc_closed (connections s ! a)
                          \<and> owner (connections s ! a) = id_p p
                          \<and> stream p = first_stream streams)))))"
proof -
  have created: "socket_connected s \<longrightarrow>
      participants (step eng s (Inbound (UserJoined d)))
        = (if list_ex (\<lambda>p. id_p p = userId d) (participants s) then participants s
           else participants s @
             [\<lparr>id_p = userId d, name = userName d, stream = Null, isMicOn = Some True,
               isCameraOn = Some True\<rparr>])
      \<and> participants (step eng s (Inbound (Offer peer offer uname)))
        = (if list_ex (\<lambda>p. id_p p = peer) (participants s) then participants s
           else participants s @
             [\<lparr>id_p = peer, name = uname, stream = Null, isMicOn = Some True,
               isCameraOn = Some True\<rparr>])
      \<and> participants (step eng s (Inbound (ExistingUsers users)))
        = map (\<lambda>u. \<lparr>id_p = userId u, name = userName u, stream = Null, isMicOn = Some True,
                      isCameraOn = Some True\<rparr>) (uniqueUsers users)"
    by (simp add: step_def deliver_def participants_on_user_joined participants_on_offer
        on_existing_users_def new_participant_def)
  have tracked: "a < length (connections s) \<and> \<not> pc_closed (connections s ! a) \<longrightarrow>
        participants (step eng s (FromPc a (TrackEvent streams)))
          = map (\<lambda>p. if id_p p = owner (connections s ! a)
                      then p\<lparr>stream := first_stream streams\<rparr> else p) (participants s)"
    using track_entries[of a s eng streams] by blast
  have origin: "\<forall>p \<in> set (participants (step eng s act)).
        (stream p = Null \<and> isMicOn p = Some True \<and> isCameraOn p = Some True
         \<and> ((\<exists>d. act = Inbound (UserJoined d) \<and> userId d = id_p p \<and> userName d = name p)
            \<or> (\<exists>offer. act = Inbound (Offer (id_p p) offer (name p)))
            \<or> (\<exists>users. act = Inbound (ExistingUsers users)
                  \<and> id_p p \<in> set (map userId users))))
        \<or> (\<not> (socket_connected s \<and> (\<exists>users. act = Inbound (ExistingUsers users)))
            \<and> (\<exists>q \<in> set (participants s). id_p q = id_p p \<and> name q = name p
                 \<and> (stream p = stream q
                    \<or> (\<exists>a streams. act = FromPc a (TrackEvent streams)
                          \<and> a < length (connections s) \<and> \<not> pc_closed (connections s ! a)
                          \<and> owner (connections s ! a) = id_p p
                          \<and> stream p = first_stream streams))))"
  proof
    fix p assume p: "p \<in> set (participants (step eng s act))"
    show "(stream p = Null \<and> isMicOn p = Some True \<and> isCameraOn p = Some True
         \<and> ((\<exists>d. act = Inbound (UserJoined d) \<and> userId d = id_p p \<and> userName d = name p)
            \<or> (\<exists>offer. act = Inbound (Offer (id_p p) offer (name p)))
            \<or> (\<exists>users. act = Inbound (ExistingUsers users)
                  \<and> id_p p \<in> set (map userId users))))
        \<or> (\<not> (socket_connected s \<and> (\<exists>users. act = Inbound (ExistingUsers users)))
            \<and> (\<exists>q \<in> set (participants s). id_p q = id_p p \<and> name q = name p
                 \<and> (stream p = stream q
                    \<or> (\<exists>a streams. act = FromPc a (TrackEvent streams)
                          \<and> a < length (connections s) \<and> \<not> pc_closed (connections s ! a)
                          \<and> owner (connections s ! a) = id_p p
                          \<and> stream p = first_stream streams))))"
    proof (cases "socket_connected s \<and> (\<exists>users. act = Inbound (ExistingUsers users))")
      case False
      with bspec[OF participant_origin p] show ?thesis
        by blast
    next
      case True
      then obtain users where conn: "socket_connected s"
        and act: "act = Inbound (ExistingUsers users)"
        by blast
      from p obtain u where u: "u \<in> set (uniqueUsers users)"
        and pu: "p = \<lparr>id_p = userId u, name = userName u, stream = Null, isMicOn = Some True,
                      isCameraOn = Some True\<rparr>"
        unfolding act snapshot_entries[OF conn] by auto
      from u have "u \<in> set users"
        using set_uniqueUsers_subset by blast
      then have "id_p p \<in> set (map userId users)"
        unfolding pu by simp
      moreover have "stream p = Null \<and> isMicOn p = Some True \<and> isCameraOn p = Some True"
        unfolding pu by simp
      ultimately show ?thesis
        using act by blast
    qed
  qed
  from created tracked origin show ?thesis
    by (intro conjI)
qed

theorem participant_fields_witness:
  "socket_connected mounted
   \<and> participants (step accepting mounted (Inbound (UserJoined (user ''p'' ''Pat''))))
       = [\<lparr>id_p = ''p'', name = ''Pat'', stream = Null, isMicOn = Some True,
           isCameraOn = Some True\<rparr>]
   \<and> participants (step accepting mounted (Inbound (Offer ''q'' 7 ''Quinn'')))
       = [\<lparr>id_p = ''q'', name = ''Quinn'', stream = Null, isMicOn = Some True,
           isCameraOn = Some True\<rparr>]
   \<and> participants (step accepting mounted
        (Inbound (ExistingUsers [user ''A'' ''Ann'', user ''A'' ''Ann'', user ''B'' ''Bob''])))
       = [\<lparr>id_p = ''A'', name = ''Ann'', stream = Null, isMicOn = Some True,
           isCameraOn = Some True\<rparr>,
          \<lparr>id_p = ''B'', name = ''Bob'', stream = Null, isMicOn = Some True,
           isCameraOn = Some True\<rparr>]
   \<and> participants (step accepting
        (step accepting mounted (Inbound (UserJoined (user ''p'' ''Pat''))))
        (FromPc 0 (TrackEvent [\<lparr>stream_id = 5, getTracks = []\<rparr>])))
       = [\<lparr>id_p = ''p'', name = ''Pat'', stream = Stream \<lparr>stream_id = 5, getTracks = []\<rparr>,
           isMicOn = Some True, isCameraOn = Some True\<rparr>]"
proof -
  let ?snap = "[user ''A'' ''Ann'', user ''A'' ''Ann'', user ''B'' ''Bob'']"
  let ?s1 = "step accepting mounted (Inbound (UserJoined (user ''p'' ''Pat'')))"
  let ?remote = "\<lparr>stream_id = 5, getTracks = []\<rparr>"
  have c: "socket_connected mounted"
    by (simp add: mounted_def mount_def emit_def)
  note at_mount = mp[OF participant_fields[where s = mounted and eng = accepting
        and d = "user ''p'' ''Pat''" and peer = "''q''" and offer = 7 and uname = "''Quinn''"
        and users = ?snap and a = 0 and streams = "[]" and act = "Inbound JoinApproved",
        THEN conjunct1] c]
  have e: "participants mounted = []"
    by (simp add: mounted_def mount_def emit_def)
  from at_mount
  have "participants (step accepting mounted (Inbound (UserJoined (user ''p'' ''Pat''))))
        = (if list_ex (\<lambda>p. id_p p = userId (user ''p'' ''Pat'')) (participants mounted)
           then participants mounted
           else participants mounted @
             [\<lparr>id_p = userId (user ''p'' ''Pat''), name = userName (user ''p'' ''Pat''),
               stream = Null, isMicOn = Some True, isCameraOn = Some True\<rparr>])"
    by (rule conjunct1)
  then have j: "participants (step accepting mounted (Inbound (UserJoined (user ''p'' ''Pat''))))
       = [\<lparr>id_p = ''p'', name = ''Pat'', stream = Null, isMicOn = Some True,
           isCameraOn = Some True\<rparr>]"
    unfolding e by (simp add: user_def)
  from at_mount
  have "participants (step accepting mounted (Inbound (Offer ''q'' 7 ''Quinn'')))
        = (if list_ex (\<lambda>p. id_p p = ''q'') (participants mounted) then participants mounted
           else participants mounted @
             [\<lparr>id_p = ''q'', name = ''Quinn'', stream = Null, isMicOn = Some True,
               isCameraOn = Some True\<rparr>])"
    by (rule conjunct2[THEN conjunct1])
  then have o: "participants (step accepting mounted (Inbound (Offer ''q'' 7 ''Quinn'')))
       = [\<lparr>id_p = ''q'', name = ''Quinn'', stream = Null, isMicOn = Some True,
           isCameraOn = Some True\<rparr>]"
    unfolding e by simp
  have kept: "uniqueUsers ?snap = [user ''A'' ''Ann'', user ''B'' ''Bob'']"
    by (simp add: uniqueUsers_def user_def enumerate_eq_zip)
  from at_mount
  have "participants (step accepting mounted (Inbound (ExistingUsers ?snap)))
        = map (\<lambda>u. \<lparr>id_p = userId u, name = userName u, stream = Null, isMicOn = Some True,
                      isCameraOn = Some True\<rparr>) (uniqueUsers ?snap)"
    by (rule conjunct2[THEN conjunct2])
  then have x: "participants (step accepting mounted (Inbound (ExistingUsers ?snap)))
       = [\<lparr>id_p = ''A'', name = ''Ann'', stream = Null, isMicOn = Some True,
           isCameraOn = Some True\<rparr>,
          \<lparr>id_p = ''B'', name = ''Bob'', stream = Null, isMicOn = Some True,
           isCameraOn = Some True\<rparr>]"
    unfolding kept by (simp add: user_def)
  have live: "0 < length (connections ?s1) \<and> \<not> pc_closed (connections ?s1 ! 0)"
    by code_simp
  have own: "owner (connections ?s1 ! 0) = ''p''"
    by code_simp
  from mp[OF participant_fields[where s = ?s1 and eng = accepting and a = 0
        and streams = "[?remote]" and d = "user ''p'' ''Pat''" and peer = "''q''" and offer = 7
        and uname = "''Quinn''" and users = ?snap and act = "Inbound JoinApproved",
        THEN conjunct2, THEN conjunct1] live]
  have "participants (step accepting ?s1 (FromPc 0 (TrackEvent [?remote])))
      = map (\<lambda>p. if id_p p = owner (connections ?s1 ! 0)
                  then p\<lparr>stream := first_stream [?remote]\<rparr> else p) (participants ?s1)" .
  then have k: "participants (step accepting ?s1 (FromPc 0 (TrackEvent [?remote])))
       = [\<lparr>id_p = ''p'', name = ''Pat'', stream = Stream ?remote,
           isMicOn = Some True, isCameraOn = Some True\<rparr>]"
    unfolding own j by (simp add: first_stream_def)
  show ?thesis
    by (intro conjI c j o x k)
qed

end
